theory Spec2Isabelle
  imports Complex_Main "HOL-Library.AList"
begin

section \<open>Data model\<close>

text \<open>
  The activation network of \<^verbatim>\<open>HelenKellerActivationNetwork\<close>. A JavaScript \<^verbatim>\<open>number\<close> is
  modelled by a real. Sums, products and quotients are the exact ones: their rounding, the
  overflow and the not-a-number values of IEEE doubles are not represented (the one place
  where the source relies on a not-a-number comparison, \<^verbatim>\<open>cosineSimilarity\<close>, returns an
  option). \<^verbatim>\<open>Math.tanh\<close> is modelled with the two ranges in which its result on doubles is
  exactly \<open>1\<close> or \<open>-1\<close>, see \<open>Math_tanh\<close> below.

  A \<^verbatim>\<open>Map\<close> is an association list with distinct keys in insertion order:
  \<^verbatim>\<open>get\<close> is \<^const>\<open>map_of\<close> and \<^verbatim>\<open>set\<close> is \<^const>\<open>AList.update\<close>, which overwrites in
  place or appends.

  Every node object is owned by the network map and is stored there under its own
  \<^verbatim>\<open>id\<close> (\<^verbatim>\<open>createNode\<close> and \<^verbatim>\<open>loadNetwork\<close> are the only places that insert). A reference
  to a node is therefore modelled by that id, the \<^verbatim>\<open>id\<close> field of a node is its key in the
  network, and a mutation through a reference is an update of the network at that key.
\<close>

record NodeConnection =
  weight :: real
  c_lastFired :: real
  plasticityRate :: real

record ActivationNode =
  potential :: real
  connections :: "(string \<times> NodeConnection) list"
  decay :: real
  threshold :: real
  refractoryPeriod :: real
  lastFired :: real
  embedding :: "real list option"
  semanticContent :: "string option"

record ActivationParams =
  spread :: real
  p_threshold :: real
  p_decay :: real

text \<open>
  What one entry of the persisted document holds: the object literal that
  \<^verbatim>\<open>saveNetwork\<close> writes for a node. \<^verbatim>\<open>null\<close> is \<^const>\<open>None\<close>.
\<close>

record NodeData =
  d_potential :: real
  d_decay :: real
  d_threshold :: real
  d_refractoryPeriod :: real
  d_lastFired :: real
  d_connections :: "(string \<times> NodeConnection) list"
  d_embedding :: "real list option"
  d_semanticContent :: "string option"

text \<open>
  The persistence file as \<^verbatim>\<open>initialize\<close> and \<^verbatim>\<open>loadNetwork\<close> see it:
  \<^item> absent;
  \<^item> present with a content on which \<^verbatim>\<open>JSON.parse\<close> throws;
  \<^item> present with the content \<^verbatim>\<open>null\<close>, which parses;
  \<^item> present with a content that parses to an object, given by its own properties in
    creation order. The value of a property is an object of the shape that \<^verbatim>\<open>saveNetwork\<close>
    writes for a node, or else a value on which the construction of the node in
    \<^verbatim>\<open>loadNetwork\<close> throws, which is \<^const>\<open>None\<close>: such a value is \<^verbatim>\<open>null\<close> (reading the potential
    of \<^verbatim>\<open>null\<close> is a type error), or an object whose \<^verbatim>\<open>connections\<close> cannot be iterated as
    entries of a map.

  A content whose values have fields of other types than the ones \<^verbatim>\<open>saveNetwork\<close> writes,
  and on which nothing throws, is outside this model.
\<close>

datatype persisted =
  Missing | Unparsable | Null_document | Document "(string \<times> NodeData option) list"

text \<open>
  The state of one instance of the class, together with the environment it reads and
  writes: \<^verbatim>\<open>Date.now()\<close> returns \<open>clock k\<close> at its \<open>k\<close>-th call, \<open>disk\<close> is the file at
  \<^verbatim>\<open>networkPath\<close>, and \<open>writes\<close> counts the calls of \<^verbatim>\<open>fs.writeFileSync\<close>.
\<close>

record hk =
  network :: "(string \<times> ActivationNode) list"
  isInitialized :: bool
  chaosThreshold :: real
  coherenceScore :: real
  clock :: "nat \<Rightarrow> real"
  ticks :: nat
  disk :: persisted
  writes :: nat

definition alpha :: real where
  "alpha = 1.0"

text \<open>
  \<^verbatim>\<open>Math.tanh\<close>. The hyperbolic tangent of a real is strictly between \<open>-1\<close> and \<open>1\<close>, and
  the doubles next to \<open>1\<close> from below are \<open>2\<^sup>-\<^sup>5\<^sup>3\<close> apart. From \<open>20\<close> on the tangent is
  less than \<open>2\<^sup>-\<^sup>5\<^sup>4\<close> away from \<open>1\<close> (\<open>tanh_20_rounds_up\<close> below), so that the nearest
  double is \<open>1\<close> itself, which \<^verbatim>\<open>Math.tanh\<close> returns; and it returns \<open>-1\<close> up to \<open>-20\<close>, by
  symmetry. Between these ranges the model has the real function, without rounding.
\<close>

definition Math_tanh :: "real \<Rightarrow> real" where
  "Math_tanh x = (if 20 \<le> x then 1 else if x \<le> - 20 then - 1 else tanh x)"

definition Date_now :: "hk \<Rightarrow> real \<times> hk" where
  "Date_now s = (clock s (ticks s), s\<lparr>ticks := Suc (ticks s)\<rparr>)"

definition modify_node :: "string \<Rightarrow> (ActivationNode \<Rightarrow> ActivationNode) \<Rightarrow> hk \<Rightarrow> hk" where
  "modify_node k f s =
     s\<lparr>network := map (\<lambda>(k', n). if k' = k then (k', f n) else (k', n)) (network s)\<rparr>"

definition get_conn :: "hk \<Rightarrow> string \<Rightarrow> string \<Rightarrow> NodeConnection option" where
  "get_conn s a b =
     (case map_of (network s) a of None \<Rightarrow> None | Some n \<Rightarrow> map_of (connections n) b)"

definition set_conn :: "string \<Rightarrow> string \<Rightarrow> NodeConnection \<Rightarrow> hk \<Rightarrow> hk" where
  "set_conn a b c s =
     modify_node a (\<lambda>n. n\<lparr>connections := AList.update b c (connections n)\<rparr>) s"

section \<open>Resonance matching\<close>

text \<open>
  \<^verbatim>\<open>cosineSimilarity(a, b)\<close> loops over the indices of \<open>a\<close>. Reading \<open>b\<close> beyond its length
  gives \<^verbatim>\<open>undefined\<close> and a zero norm gives \<^verbatim>\<open>0 / 0\<close>: both results are not-a-number,
  here \<^const>\<open>None\<close>, and every comparison with it is false.
\<close>

definition cosineSimilarity :: "real list \<Rightarrow> real list \<Rightarrow> real option" where
  "cosineSimilarity a b =
     (if length b < length a then None
      else
        let dotProduct = sum_list (map2 (*) a b);
            normA = sum_list (map2 (*) a a);
            normB = sum_list (map2 (*) (take (length a) b) (take (length a) b))
        in if sqrt normA * sqrt normB = 0 then None
           else Some (dotProduct / (sqrt normA * sqrt normB)))"

text \<open>
  \<^verbatim>\<open>createNode\<close>: the identifier, built by the source from the clock and a random number,
  is the argument \<open>new_id\<close>.
\<close>

definition createNode :: "string \<Rightarrow> real list \<Rightarrow> string option \<Rightarrow> hk \<Rightarrow> string \<times> hk" where
  "createNode new_id emb content s =
     (let node = \<lparr>potential = 1.0, connections = [], decay = 0.9, threshold = 0.5,
                  refractoryPeriod = 100, lastFired = 0, embedding = Some emb,
                  semanticContent = content\<rparr>
      in (new_id, s\<lparr>network := AList.update new_id node (network s)\<rparr>))"

text \<open>
  The loop of \<^verbatim>\<open>findResonantNodes\<close> over the values of the network: the nodes seen so far
  are returned with their new potential, beside the ids collected.
\<close>

fun resonate ::
  "real list \<Rightarrow> (string \<times> ActivationNode) list \<Rightarrow> string list \<times> (string \<times> ActivationNode) list" where
  "resonate q [] = ([], [])"
| "resonate q ((k, node) # rest) =
     (let (ks, rest') = resonate q rest
      in case embedding node of
           None \<Rightarrow> (ks, (k, node) # rest')
         | Some e \<Rightarrow>
             (case cosineSimilarity q e of
                None \<Rightarrow> (ks, (k, node) # rest')
              | Some similarity \<Rightarrow>
                  if similarity > 0.7
                  then (k # ks, (k, node\<lparr>potential := similarity\<rparr>) # rest')
                  else (ks, (k, node) # rest')))"

definition findResonantNodes ::
  "string \<Rightarrow> real list \<Rightarrow> string option \<Rightarrow> hk \<Rightarrow> string list \<times> hk" where
  "findResonantNodes new_id q originalText s =
     (let (resonantNodes, net') = resonate q (network s);
          s1 = s\<lparr>network := net'\<rparr>
      in if length resonantNodes = 0
         then (let (newNode, s2) = createNode new_id q originalText s1 in ([newNode], s2))
         else (resonantNodes, s1))"

section \<open>Coherence\<close>

fun coherence_loop :: "hk \<Rightarrow> string list \<Rightarrow> real \<times> nat \<Rightarrow> real \<times> nat" where
  "coherence_loop s (a # b # rest) (totalStrength, conns) =
     coherence_loop s (b # rest)
       (case get_conn s a b of
          Some connection \<Rightarrow> (totalStrength + \<bar>weight connection\<bar>, Suc conns)
        | None \<Rightarrow> (totalStrength, conns))"
| "coherence_loop s path acc = acc"

definition calculateCoherence :: "hk \<Rightarrow> string list \<Rightarrow> real" where
  "calculateCoherence s path =
     (if length path < 2 then 1.0
      else
        let (totalStrength, conns) = coherence_loop s path (0, 0)
        in if conns > 0 then totalStrength / real conns else 0)"

definition updateCoherenceMetrics :: "string list \<Rightarrow> hk \<Rightarrow> hk" where
  "updateCoherenceMetrics path s =
     (if length path < 2 then s
      else
        let instantCoherence = calculateCoherence s path;
            s1 = s\<lparr>coherenceScore := 0.9 * coherenceScore s + 0.1 * instantCoherence\<rparr>
        in if coherenceScore s1 < 0.5 \<and> chaosThreshold s1 > 1.0
           then s1\<lparr>chaosThreshold := chaosThreshold s1 * 0.99\<rparr>
           else s1)"

section \<open>Hebbian learning\<close>

text \<open>
  A path is a list of references to nodes of the network. An id that is not in the
  network refers to no node; the source cannot hold such a reference, and the model leaves
  the state as it is there.
\<close>

definition ensure_conn :: "string \<Rightarrow> string \<Rightarrow> hk \<Rightarrow> NodeConnection \<times> hk" where
  "ensure_conn a b s =
     (case get_conn s a b of
        Some c \<Rightarrow> (c, s)
      | None \<Rightarrow>
          (let (t, s1) = Date_now s;
               c = \<lparr>weight = 0.1, c_lastFired = t, plasticityRate = 0.1\<rparr>
           in (c, set_conn a b c s1)))"

definition strengthen_pair :: "string \<Rightarrow> string \<Rightarrow> hk \<Rightarrow> hk" where
  "strengthen_pair a b s =
     (case (map_of (network s) a, map_of (network s) b) of
        (Some current, Some next) \<Rightarrow>
          (let (connection, s1) = ensure_conn a b s;
               strengthening = plasticityRate connection * potential current * potential next;
               connection1 = connection\<lparr>weight := Math_tanh (weight connection + strengthening)\<rparr>;
               (t, s2) = Date_now s1;
               s3 = set_conn a b (connection1\<lparr>c_lastFired := t\<rparr>) s2;
               (reverseConnection, s4) = ensure_conn b a s3
           in set_conn b a
                (reverseConnection\<lparr>weight :=
                   Math_tanh (weight reverseConnection + strengthening * 0.7)\<rparr>) s4)
      | _ \<Rightarrow> s)"

fun strengthen_pairs :: "string list \<Rightarrow> hk \<Rightarrow> hk" where
  "strengthen_pairs (a # b # rest) s = strengthen_pairs (b # rest) (strengthen_pair a b s)"
| "strengthen_pairs path s = s"

definition weaken_conn :: "string list \<Rightarrow> string \<times> NodeConnection \<Rightarrow> string \<times> NodeConnection" where
  "weaken_conn path = (\<lambda>(connId, conn).
     if connId \<in> set path then (connId, conn)
     else (connId, conn\<lparr>weight := weight conn * 0.99\<rparr>))"

definition weaken_unused :: "string list \<Rightarrow> string \<Rightarrow> hk \<Rightarrow> hk" where
  "weaken_unused path k s =
     modify_node k (\<lambda>n. n\<lparr>connections := map (weaken_conn path) (connections n)\<rparr>) s"

definition strengthenPath :: "string list \<Rightarrow> hk \<Rightarrow> hk" where
  "strengthenPath activatedPath s =
     fold (weaken_unused activatedPath) activatedPath (strengthen_pairs activatedPath s)"

section \<open>Propagation\<close>

record propagation =
  this :: hk
  visited :: "string set"
  wavefront :: "string list"
  activatedPath :: "string list"

definition activate ::
  "ActivationParams \<Rightarrow> bool \<Rightarrow> real \<Rightarrow> string \<Rightarrow> string \<times> NodeConnection \<Rightarrow>
   propagation \<Rightarrow> propagation" where
  "activate params isEdgeOfChaos now cur = (\<lambda>(connectedId, connection) ps.
     if connectedId \<in> visited ps then ps
     else
       case (map_of (network (this ps)) connectedId, map_of (network (this ps)) cur) of
         (Some connectedNode, Some current) \<Rightarrow>
           (let baseActivation = potential current * weight connection * spread params;
                alignmentBonus = (if isEdgeOfChaos then alpha * Math_tanh baseActivation else 0);
                activation = baseActivation + alignmentBonus;
                p = potential connectedNode + activation;
                s1 = modify_node connectedId (\<lambda>n. n\<lparr>potential := p\<rparr>) (this ps)
            in if p > p_threshold params
               then
                 (let s2 = modify_node connectedId (\<lambda>n. n\<lparr>lastFired := now\<rparr>) s1;
                      path = activatedPath ps @ [connectedId]
                  in ps\<lparr>this := updateCoherenceMetrics path s2,
                        visited := insert connectedId (visited ps),
                        wavefront := wavefront ps @ [connectedId],
                        activatedPath := path\<rparr>)
               else ps\<lparr>this := s1\<rparr>)
       | _ \<Rightarrow> ps)"

definition fire :: "ActivationParams \<Rightarrow> bool \<Rightarrow> string \<Rightarrow> propagation \<Rightarrow> propagation" where
  "fire params isEdgeOfChaos cur ps =
     (case map_of (network (this ps)) cur of
        None \<Rightarrow> ps
      | Some current \<Rightarrow>
          (let s1 = modify_node cur (\<lambda>n. n\<lparr>potential := potential n * p_decay params\<rparr>) (this ps);
               (now, s2) = Date_now s1
           in if now - lastFired current < refractoryPeriod current then ps\<lparr>this := s2\<rparr>
              else fold (activate params isEdgeOfChaos now cur) (connections current)
                     (ps\<lparr>this := s2\<rparr>)))"

definition keys :: "propagation \<Rightarrow> string set" where
  "keys ps = fst ` set (network (this ps))"

definition unvisited :: "propagation \<Rightarrow> nat" where
  "unvisited ps = card (keys ps - visited ps)"

function propagate_loop :: "ActivationParams \<Rightarrow> bool \<Rightarrow> propagation \<Rightarrow> propagation" where
  "propagate_loop params isEdgeOfChaos ps =
     (case wavefront ps of
        [] \<Rightarrow> ps
      | current # rest \<Rightarrow>
          propagate_loop params isEdgeOfChaos
            (fire params isEdgeOfChaos current (ps\<lparr>wavefront := rest\<rparr>)))"
  by pat_completeness auto

definition propagateActivation ::
  "string list \<Rightarrow> ActivationParams \<Rightarrow> hk \<Rightarrow> string list \<times> hk" where
  "propagateActivation startNodes params s =
     (let isEdgeOfChaos = (chaosThreshold s > 1.0 \<and> chaosThreshold s < 1.5);
          ps = propagate_loop params isEdgeOfChaos
                 \<lparr>this = s, visited = set startNodes, wavefront = startNodes,
                  activatedPath = startNodes\<rparr>
      in (activatedPath ps, this ps))"

definition broad :: ActivationParams where
  "broad = \<lparr>spread = 0.8, p_threshold = 0.3, p_decay = 0.9\<rparr>"

section \<open>Persistence\<close>

text \<open>
  \<^verbatim>\<open>networkData\<close> is a plain object. An assignment \<^verbatim>\<open>networkData[id] = v\<close> creates or
  overwrites the own property \<open>id\<close>, except that for the key \<^verbatim>\<open>__proto__\<close> it sets the
  prototype of the object to \<open>v\<close> and creates no own property. \<^verbatim>\<open>JSON.stringify\<close> and
  \<^verbatim>\<open>Object.entries\<close> go through the own properties in property order: the keys that are
  array indices (canonical decimal numerals below \<open>2\<^sup>3\<^sup>2 - 1\<close>) in ascending order, then
  the other keys in creation order.
\<close>

definition obj_set :: "string \<Rightarrow> 'v \<Rightarrow> (string \<times> 'v) list \<Rightarrow> (string \<times> 'v) list" where
  "obj_set k v obj = (if k = ''__proto__'' then obj else AList.update k v obj)"

definition is_digit :: "char \<Rightarrow> bool" where
  "is_digit c = (48 \<le> (of_char c :: nat) \<and> (of_char c :: nat) \<le> 57)"

definition digits_value :: "string \<Rightarrow> nat" where
  "digits_value k = foldl (\<lambda>a c. 10 * a + (of_char c - 48)) 0 k"

definition array_index :: "string \<Rightarrow> nat option" where
  "array_index k =
     (if k \<noteq> [] \<and> list_all is_digit k \<and> (k = ''0'' \<or> hd k \<noteq> CHR ''0'')
         \<and> digits_value k < 2 ^ 32 - 1
      then Some (digits_value k) else None)"

definition Object_entries :: "(string \<times> 'v) list \<Rightarrow> (string \<times> 'v) list" where
  "Object_entries obj =
     sort_key (\<lambda>(k, v). digits_value k) (filter (\<lambda>(k, v). array_index k \<noteq> None) obj)
     @ filter (\<lambda>(k, v). array_index k = None) obj"

text \<open>\<^verbatim>\<open>new Map(entries)\<close> sets the entries one after the other.\<close>

definition new_Map :: "('k \<times> 'v) list \<Rightarrow> ('k \<times> 'v) list" where
  "new_Map entries = fold (\<lambda>(k, v) m. AList.update k v m) entries []"

text \<open>
  \<^verbatim>\<open>x || null\<close> and \<^verbatim>\<open>x || undefined\<close> on an optional string: the empty string is falsy, as
  the absent value is.
\<close>

definition or_absent :: "string option \<Rightarrow> string option" where
  "or_absent x = (case x of Some (c # cs) \<Rightarrow> Some (c # cs) | _ \<Rightarrow> None)"

definition node_data :: "ActivationNode \<Rightarrow> NodeData" where
  "node_data node =
     \<lparr>d_potential = potential node, d_decay = decay node, d_threshold = threshold node,
      d_refractoryPeriod = refractoryPeriod node, d_lastFired = lastFired node,
      d_connections = connections node,
      d_embedding = (case embedding node of Some e \<Rightarrow> Some e | None \<Rightarrow> None),
      d_semanticContent = or_absent (semanticContent node)\<rparr>"

definition saveNetwork :: "hk \<Rightarrow> hk" where
  "saveNetwork s =
     (let networkData =
            fold (\<lambda>(id, node) obj. obj_set id (Some (node_data node)) obj) (network s) []
      in s\<lparr>disk := Document (Object_entries networkData), writes := Suc (writes s)\<rparr>)"

text \<open>
  An array is truthy, also the empty one, so an embedding that is present in the document
  is loaded. The conversion to \<^verbatim>\<open>Float32Array\<close> is the identity of the model.
\<close>

definition node_of_data :: "NodeData \<Rightarrow> ActivationNode" where
  "node_of_data nodeData =
     \<lparr>potential = d_potential nodeData, connections = new_Map (d_connections nodeData),
      decay = d_decay nodeData, threshold = d_threshold nodeData,
      refractoryPeriod = d_refractoryPeriod nodeData, lastFired = d_lastFired nodeData,
      embedding = (case d_embedding nodeData of Some e \<Rightarrow> Some e | None \<Rightarrow> None),
      semanticContent = or_absent (d_semanticContent nodeData)\<rparr>"

datatype error = ReadError | SyntaxError | TypeError | ServiceFailure

text \<open>
  The loop of \<^verbatim>\<open>loadNetwork\<close> over the entries of the parsed object. On a value from which
  no node can be constructed (\<^const>\<open>None\<close>) the construction throws, before
  \<^verbatim>\<open>this.network.set\<close>: the loop ends there with the error, and the nodes set in the turns
  before are in the network.
\<close>

fun load_entries :: "(string \<times> NodeData option) list \<Rightarrow> hk \<Rightarrow> error option \<times> hk" where
  "load_entries [] s = (None, s)"
| "load_entries ((k, None) # rest) s = (Some TypeError, s)"
| "load_entries ((k, Some nodeData) # rest) s =
     load_entries rest (s\<lparr>network := AList.update k (node_of_data nodeData) (network s)\<rparr>)"

text \<open>
  The body of the \<^verbatim>\<open>try\<close> block of \<^verbatim>\<open>loadNetwork\<close>: the error that it throws, if any, and
  the state it has reached. \<^verbatim>\<open>fs.readFileSync\<close> throws when there is no file,
  \<^verbatim>\<open>JSON.parse\<close> throws on a content that does not parse, and \<^verbatim>\<open>Object.entries(null)\<close> is a
  type error.
\<close>

definition try_load :: "hk \<Rightarrow> error option \<times> hk" where
  "try_load s =
     (case disk s of
        Missing \<Rightarrow> (Some ReadError, s)
      | Unparsable \<Rightarrow> (Some SyntaxError, s)
      | Null_document \<Rightarrow> (Some TypeError, s)
      | Document data \<Rightarrow> load_entries (Object_entries data) s)"

text \<open>
  A call of \<^verbatim>\<open>loadNetwork\<close>: the error that it throws to its caller, if any, and the state
  afterwards. The \<^verbatim>\<open>catch\<close> takes every error of the body and only writes to the log.
  \<open>loadNetwork\<close> is the state after the call.
\<close>

definition loadNetwork_call :: "hk \<Rightarrow> error option \<times> hk" where
  "loadNetwork_call s =
     (case try_load s of (Some error, s') \<Rightarrow> (None, s') | (None, s') \<Rightarrow> (None, s'))"

definition loadNetwork :: "hk \<Rightarrow> hk" where
  "loadNetwork s = snd (loadNetwork_call s)"

text \<open>
  \<^verbatim>\<open>initialize\<close>: \<^verbatim>\<open>fs.existsSync\<close> holds unless the file is missing. An error thrown by
  the call of \<^verbatim>\<open>loadNetwork\<close> leaves \<^verbatim>\<open>initialize\<close> at once, before \<^verbatim>\<open>isInitialized\<close> is
  set. The construction of the client of the language-model service does not touch the
  state modelled here. The last block catches and rethrows, and its body, two assignments,
  does not throw.
\<close>

definition initialize :: "hk \<Rightarrow> error + hk" where
  "initialize s =
     (case (if disk s \<noteq> Missing then loadNetwork_call s else (None, s)) of
        (Some error, s1) \<Rightarrow> Inl error
      | (None, s1) \<Rightarrow> Inr (s1\<lparr>isInitialized := True\<rparr>))"

text \<open>A new instance of the class, in an environment.\<close>

definition new_instance :: "(nat \<Rightarrow> real) \<Rightarrow> persisted \<Rightarrow> hk" where
  "new_instance clk file =
     \<lparr>network = [], isInitialized = False, chaosThreshold = 1.2, coherenceScore = 0,
      clock = clk, ticks = 0, disk = file, writes = 0\<rparr>"

section \<open>Learning\<close>

text \<open>
  \<^verbatim>\<open>learn(experience)\<close>. The embedding service is outside the program: its answer to this
  call is the argument \<open>embedded\<close>, an error when the call fails, which \<^verbatim>\<open>learn\<close> throws on.
  The state is returned in both cases, since the instance lives on after a throw.
\<close>

definition learn :: "string \<Rightarrow> string \<Rightarrow> error + real list \<Rightarrow> hk \<Rightarrow> error option \<times> hk" where
  "learn new_id experience embedded s =
     (case (if \<not> isInitialized s then initialize s else Inr s) of
        Inl e \<Rightarrow> (Some e, s)
      | Inr s0 \<Rightarrow>
          (case embedded of
             Inl e \<Rightarrow> (Some e, s0)
           | Inr vector \<Rightarrow>
               (let (resonantNodes, s1) = findResonantNodes new_id vector (Some experience) s0;
                    s2 = strengthenPath resonantNodes s1
                in (None, if length (network s2) mod 10 = 0 then saveNetwork s2 else s2))))"

section \<open>Notions for the properties\<close>

subsection \<open>Coherence in the words of the specification\<close>

text \<open>
  The specification's words: the connections that exist from a node of the path to the
  next one, and the mean of their absolute weights, \<open>0\<close> when there is none.
\<close>

fun existing_edges :: "hk \<Rightarrow> string list \<Rightarrow> NodeConnection list" where
  "existing_edges s (a # b # rest) =
     (case get_conn s a b of Some c \<Rightarrow> [c] | None \<Rightarrow> []) @ existing_edges s (b # rest)"
| "existing_edges s path = []"

definition mean_abs_weight :: "hk \<Rightarrow> string list \<Rightarrow> real" where
  "mean_abs_weight s path =
     (let es = existing_edges s path
      in if es = [] then 0 else (\<Sum>c\<leftarrow>es. \<bar>weight c\<bar>) / real (length es))"

subsection \<open>Resonance\<close>

text \<open>
  A node resonates with a query vector at \<open>x\<close> when it has an embedding whose cosine
  similarity with the vector is \<open>x\<close>, above \<open>0.7\<close>. \<open>tune\<close> is what the loop of
  \<^verbatim>\<open>findResonantNodes\<close> does to one node, and \<open>created\<close> is the node that \<^verbatim>\<open>createNode\<close>
  makes.
\<close>

definition resonates :: "real list \<Rightarrow> ActivationNode \<Rightarrow> real \<Rightarrow> bool" where
  "resonates q n x = (\<exists>e. embedding n = Some e \<and> cosineSimilarity q e = Some x \<and> x > 0.7)"

definition tune :: "real list \<Rightarrow> ActivationNode \<Rightarrow> ActivationNode" where
  "tune q n =
     (case embedding n of
        None \<Rightarrow> n
      | Some e \<Rightarrow>
          (case cosineSimilarity q e of
             None \<Rightarrow> n
           | Some x \<Rightarrow> if x > 0.7 then n\<lparr>potential := x\<rparr> else n))"

definition created :: "real list \<Rightarrow> string option \<Rightarrow> ActivationNode" where
  "created q content =
     \<lparr>potential = 1, connections = [], decay = 0.9, threshold = 0.5, refractoryPeriod = 100,
      lastFired = 0, embedding = Some q, semanticContent = content\<rparr>"

subsection \<open>Frames, bounds and histories\<close>

text \<open>
  Two nodes that differ at most in \<^verbatim>\<open>potential\<close> and \<^verbatim>\<open>lastFired\<close>, and two networks with the
  same ids in the same order whose nodes are so related. The connections are compared as
  lists of pairs of an id and a record: the same neighbours, weights, plasticity rates and
  times.
\<close>

definition same_but_activation :: "ActivationNode \<Rightarrow> ActivationNode \<Rightarrow> bool" where
  "same_but_activation n n' =
     (connections n' = connections n \<and> decay n' = decay n \<and> threshold n' = threshold n \<and>
      refractoryPeriod n' = refractoryPeriod n \<and> embedding n' = embedding n \<and>
      semanticContent n' = semanticContent n)"

definition frame :: "hk \<Rightarrow> hk \<Rightarrow> bool" where
  "frame s s' =
     list_all2 (\<lambda>(k, n) (k', n'). k' = k \<and> same_but_activation n n') (network s) (network s')"

text \<open>
  Every weight lies between \<open>-1\<close> and \<open>1\<close>, the bounds included: in a node, and in a
  network.
\<close>

definition conns_bounded :: "ActivationNode \<Rightarrow> bool" where
  "conns_bounded n = (\<forall>(k', c)\<in>set (connections n). - 1 \<le> weight c \<and> weight c \<le> 1)"

definition weights_bounded :: "hk \<Rightarrow> bool" where
  "weights_bounded s =
     (\<forall>(k, n)\<in>set (network s). \<forall>(k', c)\<in>set (connections n). - 1 \<le> weight c \<and> weight c \<le> 1)"

text \<open>
  The operations of the engine that change the network, for a history of calls:
  \<^verbatim>\<open>findResonantNodes\<close>, \<^verbatim>\<open>propagateActivation\<close> and \<^verbatim>\<open>strengthenPath\<close>.
\<close>

datatype operation =
  Match string "real list" "string option"
| Propagate "string list" ActivationParams
| Strengthen "string list"

fun apply_op :: "operation \<Rightarrow> hk \<Rightarrow> hk" where
  "apply_op (Match new_id q content) s = snd (findResonantNodes new_id q content s)"
| "apply_op (Propagate startNodes params) s = snd (propagateActivation startNodes params s)"
| "apply_op (Strengthen path) s = strengthenPath path s"

text \<open>The activation that \<open>cur\<close> sends along a connection, from the potential it has then.\<close>

definition activation :: "ActivationParams \<Rightarrow> bool \<Rightarrow> real \<Rightarrow> real \<Rightarrow> real" where
  "activation params e p w =
     p * w * spread params + (if e then alpha * Math_tanh (p * w * spread params) else 0)"

text \<open>
  Two conditions under which a node \<open>b\<close> that the seed \<open>a\<close> of a propagation leaves below the
  threshold receives nothing more in the call. No node but \<open>a\<close> has a connection to \<open>b\<close>. Or
  the nodes that fire in the call are at rest when the loop comes to them: each later
  reading of the clock (there is at most one for each node) is within the refractory period
  of every node, counted from the first reading, at which they fired.
\<close>

definition sole_source :: "hk \<Rightarrow> string \<Rightarrow> string \<Rightarrow> bool" where
  "sole_source s a b = (\<forall>(k, n)\<in>set (network s). k \<noteq> a \<longrightarrow> map_of (connections n) b = None)"

definition resting :: "hk \<Rightarrow> bool" where
  "resting s =
     (\<forall>j\<in>{1..length (network s)}. \<forall>(k, n)\<in>set (network s).
        clock s (ticks s + j) - clock s (ticks s) < refractoryPeriod n)"

text \<open>The path of a propagation holds no node twice, and visited nodes only.\<close>

definition path_visited :: "propagation \<Rightarrow> bool" where
  "path_visited ps = (distinct (activatedPath ps) \<and> set (activatedPath ps) \<subseteq> visited ps)"

subsection \<open>Saved and loaded networks\<close>

text \<open>
  The maps of the source are maps: the ids of the network are distinct, and so are the
  ids in the connections of each node.
\<close>

definition well_formed :: "hk \<Rightarrow> bool" where
  "well_formed s =
     (distinct (map fst (network s)) \<and>
      (\<forall>(k, n)\<in>set (network s). distinct (map fst (connections n))))"

text \<open>What a node is after a save and a load: an empty semantic content has become absent.\<close>

definition reloaded :: "ActivationNode \<Rightarrow> ActivationNode" where
  "reloaded n = n\<lparr>semanticContent := or_absent (semanticContent n)\<rparr>"

subsection \<open>Example states\<close>

text \<open>A network of two nodes connected in both directions, for the examples.\<close>

definition two_nodes :: hk where
  "two_nodes =
     (new_instance (\<lambda>k. 1000) Missing)
       \<lparr>network :=
          [(''a'', \<lparr>potential = 1/2, connections = [(''b'', \<lparr>weight = 1/2, c_lastFired = 0, plasticityRate = 1/10\<rparr>)],
                    decay = 9/10, threshold = 1/2, refractoryPeriod = 100, lastFired = 0,
                    embedding = Some [1, 0], semanticContent = Some ''water''\<rparr>),
           (''b'', \<lparr>potential = 1, connections = [(''a'', \<lparr>weight = - 1/4, c_lastFired = 0, plasticityRate = 1/10\<rparr>)],
                    decay = 9/10, threshold = 1/2, refractoryPeriod = 100, lastFired = 0,
                    embedding = Some [0, 1], semanticContent = Some ''fire''\<rparr>)]\<rparr>"

text \<open>The same two nodes with a weaker connection from \<open>a\<close> to \<open>b\<close>, and \<open>b\<close> at rest.\<close>

definition faint :: hk where
  "faint =
     (new_instance (\<lambda>k. 1000) Missing)
       \<lparr>network :=
          [(''a'', \<lparr>potential = 1/2, connections = [(''b'', \<lparr>weight = 1/4, c_lastFired = 0, plasticityRate = 1/10\<rparr>)],
                    decay = 9/10, threshold = 1/2, refractoryPeriod = 100, lastFired = 0,
                    embedding = Some [1, 0], semanticContent = Some ''water''\<rparr>),
           (''b'', \<lparr>potential = 0, connections = [(''a'', \<lparr>weight = - 1/4, c_lastFired = 0, plasticityRate = 1/10\<rparr>)],
                    decay = 9/10, threshold = 1/2, refractoryPeriod = 100, lastFired = 0,
                    embedding = Some [0, 1], semanticContent = Some ''fire''\<rparr>)]\<rparr>"

text \<open>
  Three nodes: \<open>a\<close> is connected to \<open>b\<close> and to \<open>c\<close>, and \<open>c\<close> is connected to \<open>b\<close>.
\<close>

definition relay :: hk where
  "relay =
     (new_instance (\<lambda>k. 1000) Missing)
       \<lparr>network :=
          [(''a'', \<lparr>potential = 1/2,
                    connections = [(''b'', \<lparr>weight = 1/4, c_lastFired = 0, plasticityRate = 1/10\<rparr>),
                                   (''c'', \<lparr>weight = 1/2, c_lastFired = 0, plasticityRate = 1/10\<rparr>)],
                    decay = 9/10, threshold = 1/2, refractoryPeriod = 100, lastFired = 0,
                    embedding = Some [1, 0], semanticContent = Some ''water''\<rparr>),
           (''b'', \<lparr>potential = 0, connections = [],
                    decay = 9/10, threshold = 1/2, refractoryPeriod = 100, lastFired = 0,
                    embedding = Some [0, 1], semanticContent = Some ''fire''\<rparr>),
           (''c'', \<lparr>potential = 1,
                    connections = [(''b'', \<lparr>weight = 1/2, c_lastFired = 0, plasticityRate = 1/10\<rparr>)],
                    decay = 9/10, threshold = 1/2, refractoryPeriod = 100, lastFired = 0,
                    embedding = Some [0, 1], semanticContent = Some ''ice''\<rparr>)]\<rparr>"

text \<open>A document from which \<^verbatim>\<open>initialize\<close> loads that network.\<close>

definition two_nodes_document :: "(string \<times> NodeData option) list" where
  "two_nodes_document =
     [(''a'', Some \<lparr>d_potential = 1/2, d_decay = 9/10, d_threshold = 1/2, d_refractoryPeriod = 100,
               d_lastFired = 0,
               d_connections = [(''b'', \<lparr>weight = 1/2, c_lastFired = 0, plasticityRate = 1/10\<rparr>)],
               d_embedding = Some [1, 0], d_semanticContent = Some ''water''\<rparr>),
      (''b'', Some \<lparr>d_potential = 1, d_decay = 9/10, d_threshold = 1/2, d_refractoryPeriod = 100,
               d_lastFired = 0,
               d_connections = [(''a'', \<lparr>weight = - 1/4, c_lastFired = 0, plasticityRate = 1/10\<rparr>)],
               d_embedding = Some [0, 1], d_semanticContent = Some ''fire''\<rparr>)]"

text \<open>
  The same document with an entry that holds \<^verbatim>\<open>null\<close> between the two nodes, and the state
  that \<^verbatim>\<open>initialize\<close> reaches with it: the node \<open>a\<close> alone.
\<close>

definition damaged_document :: "(string \<times> NodeData option) list" where
  "damaged_document = [hd two_nodes_document, (''n'', None), last two_nodes_document]"

definition partly_loaded :: hk where
  "partly_loaded =
     (new_instance (\<lambda>k. 1000) (Document damaged_document))
       \<lparr>network := [hd (network two_nodes)], isInitialized := True\<rparr>"

text \<open>Two nodes as \<^verbatim>\<open>createNode\<close> makes them, not connected yet.\<close>

definition unconnected :: hk where
  "unconnected =
     snd (createNode ''b'' [0, 1] (Some ''fire'')
       (snd (createNode ''a'' [1, 0] (Some ''water'')
         (new_instance (\<lambda>k. 1000 + real k) Missing))))"

text \<open>
  Two nodes without connections whose potentials are \<open>20\<close>, and a document from which
  \<^verbatim>\<open>initialize\<close> loads them.
\<close>

definition excited_document :: "(string \<times> NodeData option) list" where
  "excited_document =
     [(''a'', Some \<lparr>d_potential = 20, d_decay = 9/10, d_threshold = 1/2, d_refractoryPeriod = 100,
               d_lastFired = 0, d_connections = [],
               d_embedding = Some [1, 0], d_semanticContent = Some ''water''\<rparr>),
      (''b'', Some \<lparr>d_potential = 20, d_decay = 9/10, d_threshold = 1/2, d_refractoryPeriod = 100,
               d_lastFired = 0, d_connections = [],
               d_embedding = Some [0, 1], d_semanticContent = Some ''fire''\<rparr>)]"

definition excited :: hk where
  "excited =
     (new_instance (\<lambda>k. 1000 + real k) Missing)
       \<lparr>network :=
          [(''a'', \<lparr>potential = 20, connections = [], decay = 9/10, threshold = 1/2,
                    refractoryPeriod = 100, lastFired = 0, embedding = Some [1, 0],
                    semanticContent = Some ''water''\<rparr>),
           (''b'', \<lparr>potential = 20, connections = [], decay = 9/10, threshold = 1/2,
                    refractoryPeriod = 100, lastFired = 0, embedding = Some [0, 1],
                    semanticContent = Some ''fire''\<rparr>)]\<rparr>"

text \<open>
  The network after \<^verbatim>\<open>strengthenPath\<close> has run once on two new nodes \<open>a\<close> and \<open>b\<close>.
\<close>

definition learned :: hk where
  "learned = strengthenPath [''a'', ''b''] unconnected"

text \<open>
  The network after \<^verbatim>\<open>learn("")\<close> on a new instance, the embedding service answering with
  the vector \<open>[1]\<close>: one node, whose semantic content is the empty text.
\<close>

definition blank :: hk where
  "blank = snd (learn ''n'' '''' (Inr [1]) (new_instance (\<lambda>k. 0) Missing))"

text \<open>Nine nodes that the vector \<open>[1, 0]\<close> does not resonate with.\<close>

definition nine_nodes :: hk where
  "nine_nodes =
     (new_instance (\<lambda>k. 1000 + real k) Missing)
       \<lparr>network := map (\<lambda>k. (k, created [0, 1] (Some ''fire'')))
          [''n1'', ''n2'', ''n3'', ''n4'', ''n5'', ''n6'', ''n7'', ''n8'', ''n9''],
        isInitialized := True\<rparr>"

text \<open>
  A history of calls of \<^verbatim>\<open>learn\<close> whose embeddings succeed, nine calls with the same text
  and vector, and the state after the first of them on a new instance without a file.
\<close>

fun learn_all :: "(string \<times> string \<times> real list) list \<Rightarrow> hk \<Rightarrow> hk" where
  "learn_all [] s = s"
| "learn_all ((new_id, experience, v) # rest) s =
     learn_all rest (snd (learn new_id experience (Inr v) s))"

definition nine_lessons :: "(string \<times> string \<times> real list) list" where
  "nine_lessons =
     [(''n1'', ''water'', [1]), (''n2'', ''water'', [1]), (''n3'', ''water'', [1]),
      (''n4'', ''water'', [1]), (''n5'', ''water'', [1]), (''n6'', ''water'', [1]),
      (''n7'', ''water'', [1]), (''n8'', ''water'', [1]), (''n9'', ''water'', [1])]"

definition after_first :: hk where
  "after_first =
     (new_instance (\<lambda>k. 0) Missing)
       \<lparr>network := [(''n1'', created [1] (Some ''water''))], isInitialized := True\<rparr>"

section \<open>Termination of the propagation\<close>

text \<open>
  Each turn of the loop takes one node off the wavefront and appends the nodes it fires,
  which were in the network and unvisited: the number of unvisited nodes plus the length
  of the wavefront goes down by one.
\<close>

lemma network_modify_node_keys [simp]: "map fst (network (modify_node k f s)) = map fst (network s)"
  by (simp add: modify_node_def case_prod_unfold if_distrib[of fst] cong: if_cong)

lemma network_Date_now [simp]: "network (snd (Date_now s)) = network s"
  by (simp add: Date_now_def)

lemma network_updateCoherenceMetrics [simp]: "network (updateCoherenceMetrics path s) = network s"
  by (simp add: updateCoherenceMetrics_def Let_def)

lemma keys_modify_node [simp]: "fst ` set (network (modify_node k f s)) = fst ` set (network s)"
  using arg_cong[OF network_modify_node_keys, of set k f s] by (simp del: network_modify_node_keys)

lemma keys_simps [simp]:
  "keys (ps\<lparr>this := s\<rparr>) = fst ` set (network s)"
  "keys (ps\<lparr>visited := v\<rparr>) = keys ps"
  "keys (ps\<lparr>wavefront := w\<rparr>) = keys ps"
  "keys (ps\<lparr>activatedPath := p\<rparr>) = keys ps"
  by (simp_all add: keys_def)

lemma unvisited_insert:
  assumes "k \<in> keys ps" "k \<notin> visited ps" "keys ps' = keys ps" "visited ps' = insert k (visited ps)"
  shows "Suc (unvisited ps') = unvisited ps"
proof -
  have fin: "finite (keys ps - visited ps)" by (simp add: keys_def)
  have "keys ps' - visited ps' = (keys ps - visited ps) - {k}" using assms by auto
  moreover have "k \<in> keys ps - visited ps" using assms by simp
  ultimately show ?thesis unfolding unvisited_def using fin
    by (metis card_Suc_Diff1)
qed

lemma activate_measure:
  "unvisited (activate params e now cur c ps) + length (wavefront (activate params e now cur c ps))
     = unvisited ps + length (wavefront ps)"
proof (cases c)
  case (Pair cid conn)
  show ?thesis
  proof (cases "cid \<in> visited ps")
    case True
    then show ?thesis by (simp add: activate_def Pair)
  next
    case nv: False
    show ?thesis
    proof (cases "map_of (network (this ps)) cid")
      case None
      then show ?thesis using nv by (simp add: activate_def Pair)
    next
      case (Some connectedNode)
      then have inK: "cid \<in> keys ps" unfolding keys_def by (force dest: map_of_SomeD)
      show ?thesis
      proof (cases "map_of (network (this ps)) cur")
        case None
        then show ?thesis using nv Some by (simp add: activate_def Pair)
      next
        case (Some current)
        note cur = this
        let ?ps' = "activate params e now cur c ps"
        show ?thesis
        proof (cases "potential connectedNode + (potential current * weight conn * spread params + (if e then alpha * Math_tanh (potential current * weight conn * spread params) else 0)) > p_threshold params")
          case True
          have k: "keys ?ps' = keys ps" using nv \<open>map_of (network (this ps)) cid = Some connectedNode\<close> cur True
            by (simp add: activate_def Pair Let_def) (simp add: keys_def)
          have v: "visited ?ps' = insert cid (visited ps)" using nv \<open>map_of (network (this ps)) cid = Some connectedNode\<close> cur True
            by (simp add: activate_def Pair Let_def)
          have w: "wavefront ?ps' = wavefront ps @ [cid]" using nv \<open>map_of (network (this ps)) cid = Some connectedNode\<close> cur True
            by (simp add: activate_def Pair Let_def)
          from unvisited_insert[OF inK nv k v] w show ?thesis by simp
        next
          case False
          then show ?thesis using nv \<open>map_of (network (this ps)) cid = Some connectedNode\<close> cur
            by (simp add: activate_def Pair Let_def unvisited_def) (simp add: keys_def)
        qed
      qed
    qed
  qed
qed

lemma fold_activate_measure:
  "unvisited (fold (activate params e now cur) cs ps) + length (wavefront (fold (activate params e now cur) cs ps))
     = unvisited ps + length (wavefront ps)"
  by (induction cs arbitrary: ps) (simp_all add: activate_measure)

lemma fire_measure:
  "unvisited (fire params e cur ps) + length (wavefront (fire params e cur ps))
     = unvisited ps + length (wavefront ps)"
proof (cases "map_of (network (this ps)) cur")
  case None
  then show ?thesis by (simp add: fire_def)
next
  case (Some current)
  let ?s2 = "snd (Date_now (modify_node cur (\<lambda>n. n\<lparr>potential := potential n * p_decay params\<rparr>) (this ps)))"
  have u: "unvisited (ps\<lparr>this := ?s2\<rparr>) = unvisited ps"
    unfolding unvisited_def by simp (simp add: keys_def)
  show ?thesis using Some u
    by (simp add: fire_def Let_def case_prod_unfold fold_activate_measure)
qed

termination propagate_loop
proof (relation "measure (\<lambda>(params, e, ps). unvisited ps + length (wavefront ps))")
  show "wf (measure (\<lambda>(params, e, ps). unvisited ps + length (wavefront ps)))"
    by simp
next
  fix params e and ps :: propagation and current rest
  assume front: "wavefront ps = current # rest"
  have "unvisited (ps\<lparr>wavefront := rest\<rparr>) = unvisited ps"
    by (simp add: unvisited_def)
  with front show "((params, e, fire params e current (ps\<lparr>wavefront := rest\<rparr>)), (params, e, ps))
      \<in> measure (\<lambda>(params, e, ps). unvisited ps + length (wavefront ps))"
    by (simp add: fire_measure)
qed

declare propagate_loop.simps [simp del]

section \<open>The hyperbolic tangent on doubles\<close>

lemma Math_tanh_bounds: "- 1 \<le> Math_tanh x" "Math_tanh x \<le> 1"
  by (simp_all add: Math_tanh_def less_imp_le[OF tanh_real_lt_1] less_imp_le[OF tanh_real_gt_neg1])

lemma Math_tanh_mono: "x \<le> y \<Longrightarrow> Math_tanh x \<le> Math_tanh y"
  by (auto simp: Math_tanh_def less_imp_le[OF tanh_real_lt_1] less_imp_le[OF tanh_real_gt_neg1])

lemma Math_tanh_small: "\<bar>x\<bar> < 20 \<Longrightarrow> Math_tanh x = tanh x"
  by (auto simp: Math_tanh_def)

text \<open>
  Why \<open>20\<close>: there \<open>1 - tanh x\<close> is below \<open>2\<^sup>-\<^sup>5\<^sup>4\<close>, half the distance from \<open>1\<close> to the
  double before it.
\<close>

lemma exp_half_lower: "(13/8 :: real) \<le> exp (1/2)"
  using exp_lower_Taylor_quadratic[of "1/2 :: real"] by (simp add: power2_eq_square)

lemma exp_40_lower: "(2 :: real) ^ 55 < exp 40"
proof -
  have "(2 :: real) ^ 55 < (13/8) ^ 80" by (simp add: power_divide)
  also have "\<dots> \<le> exp (1/2) ^ 80" by (rule power_mono[OF exp_half_lower]) simp
  also have "\<dots> = exp 40" by (simp add: exp_of_nat_mult[symmetric])
  finally show ?thesis .
qed

lemma tanh_20_rounds_up: "1 - tanh (20 :: real) < 1 / 2 ^ 54"
proof -
  define E :: real where "E = exp 40"
  have E: "2 ^ 55 < E" unfolding E_def by (rule exp_40_lower)
  then have pos: "0 < E" by (simp add: E_def)
  have frac: "1 - 1 / E = (E - 1) / E" "1 + 1 / E = (E + 1) / E"
    using pos by (simp_all add: diff_divide_distrib add_divide_distrib)
  have "tanh (20 :: real) = (1 - 1 / E) / (1 + 1 / E)"
    by (simp add: tanh_real_altdef E_def exp_minus inverse_eq_divide)
  also have "\<dots> = (E - 1) / (E + 1)"
    using pos by (simp add: frac)
  finally have "1 - tanh (20 :: real) = (E + 1) / (E + 1) - (E - 1) / (E + 1)"
    using pos by simp
  also have "\<dots> = ((E + 1) - (E - 1)) / (E + 1)"
    by (rule diff_divide_distrib[symmetric])
  also have "\<dots> = 2 / (E + 1)"
    by simp
  also have "\<dots> < 2 / 2 ^ 55"
    using E by (intro divide_strict_left_mono) (auto intro: mult_pos_pos)
  finally show ?thesis by simp
qed

lemma Math_tanh_saturated: "20 \<le> x \<Longrightarrow> Math_tanh x = 1 \<and> 1 - tanh x < 1 / 2 ^ 54"
proof -
  assume x: "20 \<le> x"
  then have "tanh 20 \<le> tanh x" by simp
  then have "1 - tanh x \<le> 1 - tanh 20" by simp
  also note tanh_20_rounds_up
  finally show ?thesis using x by (simp add: Math_tanh_def)
qed

section \<open>Calls of loadNetwork\<close>

text \<open>
  No error leaves \<^verbatim>\<open>loadNetwork\<close>: the call returns with the state that the body of the
  \<^verbatim>\<open>try\<close> block has reached, and \<^verbatim>\<open>initialize\<close> goes on after it.
\<close>

lemma loadNetwork_call_returns: "loadNetwork_call s = (None, snd (try_load s))"
  by (simp add: loadNetwork_call_def split: prod.splits option.splits)

lemma loadNetwork_reached: "loadNetwork s = snd (try_load s)"
  by (simp add: loadNetwork_def loadNetwork_call_returns)

lemma initialize_loads:
  "initialize s = Inr ((if disk s \<noteq> Missing then loadNetwork s else s)\<lparr>isInitialized := True\<rparr>)"
  by (simp add: initialize_def loadNetwork_def loadNetwork_call_returns)

section \<open>The coherence of a path\<close>

lemma coherence_loop_edges:
  "coherence_loop s path (t, n) =
     (t + (\<Sum>c\<leftarrow>existing_edges s path. \<bar>weight c\<bar>), n + length (existing_edges s path))"
proof (induction s path "(t, n)" arbitrary: t n rule: coherence_loop.induct)
  case (1 s a b rest totalStrength conns)
  then show ?case by (cases "get_conn s a b") simp_all
qed simp_all

lemma calculateCoherence_mean:
  "2 \<le> length path \<Longrightarrow> calculateCoherence s path = mean_abs_weight s path"
  by (simp add: calculateCoherence_def mean_abs_weight_def coherence_loop_edges Let_def)

lemma sum_abs_bounds:
  "\<forall>c\<in>set es. \<bar>weight c\<bar> < 1 \<Longrightarrow> 0 \<le> (\<Sum>c\<leftarrow>es. \<bar>weight c\<bar>) \<and> (\<Sum>c\<leftarrow>es. \<bar>weight c\<bar>) \<le> real (length es)"
  by (induction es) auto

text \<open>
  C7. \<^verbatim>\<open>calculateCoherence\<close> returns \<open>1\<close> for a path of fewer than two nodes. For a longer
  path it returns the mean of the absolute weights of the connections that exist from a
  node of the path to its successor, and \<open>0\<close> when no such connection exists. When the
  weights of these connections lie strictly between \<open>-1\<close> and \<open>1\<close>, the result lies
  between \<open>0\<close> and \<open>1\<close>.
\<close>

theorem calculateCoherence_spec:
  "(length path < 2 \<longrightarrow> calculateCoherence s path = 1) \<and>
   (2 \<le> length path \<longrightarrow> calculateCoherence s path = mean_abs_weight s path) \<and>
   (2 \<le> length path \<and> (\<forall>c\<in>set (existing_edges s path). - 1 < weight c \<and> weight c < 1) \<longrightarrow>
      0 \<le> calculateCoherence s path \<and> calculateCoherence s path \<le> 1)"
proof (intro conjI impI)
  assume "length path < 2"
  then show "calculateCoherence s path = 1" by (simp add: calculateCoherence_def)
next
  assume "2 \<le> length path"
  then show "calculateCoherence s path = mean_abs_weight s path" by (rule calculateCoherence_mean)
next
  assume h: "2 \<le> length path \<and> (\<forall>c\<in>set (existing_edges s path). - 1 < weight c \<and> weight c < 1)"
  then have "\<forall>c\<in>set (existing_edges s path). \<bar>weight c\<bar> < 1" by (auto simp: abs_less_iff)
  from sum_abs_bounds[OF this] h
  show "0 \<le> calculateCoherence s path" "calculateCoherence s path \<le> 1"
    by (auto simp: calculateCoherence_mean mean_abs_weight_def Let_def divide_le_eq)
qed

theorem calculateCoherence_spec_witness:
  "calculateCoherence two_nodes [''a''] = 1 \<and>
   calculateCoherence two_nodes [''a'', ''b'', ''a''] = mean_abs_weight two_nodes [''a'', ''b'', ''a''] \<and>
   mean_abs_weight two_nodes [''a'', ''b'', ''a''] = 3 / 8 \<and>
   0 \<le> calculateCoherence two_nodes [''a'', ''b'', ''a''] \<and>
   calculateCoherence two_nodes [''a'', ''b'', ''a''] \<le> 1"
  using calculateCoherence_spec [of "[''a'']" two_nodes]
    calculateCoherence_spec [of "[''a'', ''b'', ''a'']" two_nodes]
  by (simp add: two_nodes_def new_instance_def mean_abs_weight_def get_conn_def)

section \<open>The resonance matcher\<close>

lemma resonate_keys [simp]: "map fst (snd (resonate q net)) = map fst net"
  by (induction q net rule: resonate.induct) (auto split: prod.splits option.splits)

lemma resonate_ids: "set (fst (resonate q net)) \<subseteq> fst ` set net"
  by (induction q net rule: resonate.induct) (auto split: prod.splits option.splits)

lemma resonate_distinct: "distinct (map fst net) \<Longrightarrow> distinct (fst (resonate q net))"
proof (induction q net rule: resonate.induct)
  case (2 q k node rest)
  then show ?case using resonate_ids[of q rest]
    by (auto split: prod.splits option.splits)
qed simp

lemma resonate_included:
  "(k, n) \<in> set net \<Longrightarrow> resonates q n x \<Longrightarrow> k \<in> set (fst (resonate q net))"
  by (induction q net rule: resonate.induct)
     (auto simp: resonates_def split: prod.splits option.splits)

lemma resonate_network: "snd (resonate q net) = map (\<lambda>(k, n). (k, tune q n)) net"
  by (induction q net rule: resonate.induct)
     (auto simp: tune_def split: prod.splits option.splits)

lemma resonate_potential:
  "map_of net k = Some n \<Longrightarrow> resonates q n x \<Longrightarrow>
   map_of (snd (resonate q net)) k = Some (n\<lparr>potential := x\<rparr>)"
  by (auto simp: resonate_network map_of_map resonates_def tune_def)

lemma resonate_none:
  "(\<And>k n x. (k, n) \<in> set net \<Longrightarrow> \<not> resonates q n x) \<Longrightarrow> resonate q net = ([], net)"
proof (induction q net rule: resonate.induct)
  case (2 q k node rest)
  have rest: "resonate q rest = ([], rest)" using 2 by auto
  have "\<not> resonates q node x" for x using 2(2)[of k node x] by simp
  then show ?case using rest
    by (auto simp: resonates_def split: option.splits)
qed simp

lemma update_fresh: "k \<notin> fst ` set al \<Longrightarrow> AList.update k v al = al @ [(k, v)]"
  by (induction al) auto

lemma findResonantNodes_hit:
  "fst (resonate q (network s)) \<noteq> [] \<Longrightarrow>
   findResonantNodes new_id q content s =
     (fst (resonate q (network s)), s\<lparr>network := snd (resonate q (network s))\<rparr>)"
  by (simp add: findResonantNodes_def case_prod_unfold Let_def)

text \<open>
  C3. \<^verbatim>\<open>findResonantNodes\<close> returns a non-empty sequence. Every node of the network whose
  embedding has a cosine similarity above \<open>0.7\<close> with the query vector is in the result,
  and its potential is that similarity afterwards. When no node of the network has such a
  similarity, the result is the one node created: it is appended to the network under the
  generated id (an id that the network does not hold yet), with potential \<open>1\<close>, the query
  vector as embedding and the given text as semantic content.
\<close>

theorem findResonantNodes_contract:
  assumes "distinct (map fst (network s))"
  shows "fst (findResonantNodes new_id q content s) \<noteq> [] \<and>
    (\<forall>k n x. map_of (network s) k = Some n \<and> resonates q n x \<longrightarrow>
       k \<in> set (fst (findResonantNodes new_id q content s)) \<and>
       map_of (network (snd (findResonantNodes new_id q content s))) k = Some (n\<lparr>potential := x\<rparr>)) \<and>
    ((\<forall>k n x. (k, n) \<in> set (network s) \<longrightarrow> \<not> resonates q n x) \<and> new_id \<notin> fst ` set (network s) \<longrightarrow>
       fst (findResonantNodes new_id q content s) = [new_id] \<and>
       network (snd (findResonantNodes new_id q content s)) = network s @ [(new_id, created q content)])"
proof (intro conjI allI impI)
  show "fst (findResonantNodes new_id q content s) \<noteq> []"
    by (auto simp: findResonantNodes_def createNode_def Let_def split: prod.splits)
next
  fix k n x
  assume h: "map_of (network s) k = Some n \<and> resonates q n x"
  then have mem: "(k, n) \<in> set (network s)" by (auto dest: map_of_SomeD)
  from resonate_included[OF mem] h have inc: "k \<in> set (fst (resonate q (network s)))" by blast
  then have ne: "fst (resonate q (network s)) \<noteq> []" by auto
  from inc show "k \<in> set (fst (findResonantNodes new_id q content s))"
    by (simp add: findResonantNodes_hit[OF ne])
  from resonate_potential h
  show "map_of (network (snd (findResonantNodes new_id q content s))) k = Some (n\<lparr>potential := x\<rparr>)"
    by (simp add: findResonantNodes_hit[OF ne])
next
  assume h: "(\<forall>k n x. (k, n) \<in> set (network s) \<longrightarrow> \<not> resonates q n x) \<and> new_id \<notin> fst ` set (network s)"
  then have r: "resonate q (network s) = ([], network s)" by (intro resonate_none) blast
  from h have upd: "AList.update new_id (created q content) (network s) = network s @ [(new_id, created q content)]"
    by (intro update_fresh) simp
  show "fst (findResonantNodes new_id q content s) = [new_id]"
    by (simp add: findResonantNodes_def createNode_def r)
  show "network (snd (findResonantNodes new_id q content s)) = network s @ [(new_id, created q content)]"
    using upd by (simp add: findResonantNodes_def createNode_def r created_def)
qed

theorem findResonantNodes_contract_witness:
  "distinct (map fst (network two_nodes)) \<and>
   fst (findResonantNodes ''c'' [1, 0] (Some ''ice'') two_nodes) \<noteq> [] \<and>
   ''a'' \<in> set (fst (findResonantNodes ''c'' [1, 0] (Some ''ice'') two_nodes)) \<and>
   map_option potential (map_of (network two_nodes) ''a'') = Some (1/2) \<and>
   map_option potential
     (map_of (network (snd (findResonantNodes ''c'' [1, 0] (Some ''ice'') two_nodes))) ''a'') = Some 1 \<and>
   fst (findResonantNodes ''c'' [- 1, 0] (Some ''ice'') two_nodes) = [''c''] \<and>
   network (snd (findResonantNodes ''c'' [- 1, 0] (Some ''ice'') two_nodes))
     = network two_nodes @ [(''c'', created [- 1, 0] (Some ''ice''))]"
proof -
  have d: "distinct (map fst (network two_nodes))"
    by (simp add: two_nodes_def new_instance_def)
  obtain n where n: "map_of (network two_nodes) ''a'' = Some n" "potential n = 1/2"
    "embedding n = Some [1, 0]"
    by (simp add: two_nodes_def new_instance_def)
  have hit: "resonates [1, 0] n 1"
    using n by (simp add: resonates_def cosineSimilarity_def)
  have miss: "\<forall>k n x. (k, n) \<in> set (network two_nodes) \<longrightarrow> \<not> resonates [- 1, 0] n x"
    by (auto simp: two_nodes_def new_instance_def resonates_def cosineSimilarity_def)
  have fresh: "''c'' \<notin> fst ` set (network two_nodes)"
    by (simp add: two_nodes_def new_instance_def)
  from findResonantNodes_contract [OF d, of "''c''" "[1, 0]" "Some ''ice''"] n hit
  have 1: "fst (findResonantNodes ''c'' [1, 0] (Some ''ice'') two_nodes) \<noteq> []"
    and 2: "''a'' \<in> set (fst (findResonantNodes ''c'' [1, 0] (Some ''ice'') two_nodes))"
    and 3: "map_of (network (snd (findResonantNodes ''c'' [1, 0] (Some ''ice'') two_nodes))) ''a''
             = Some (n\<lparr>potential := 1\<rparr>)"
    by blast+
  from findResonantNodes_contract [OF d, of "''c''" "[- 1, 0]" "Some ''ice''"] miss fresh
  have 4: "fst (findResonantNodes ''c'' [- 1, 0] (Some ''ice'') two_nodes) = [''c'']"
    and 5: "network (snd (findResonantNodes ''c'' [- 1, 0] (Some ''ice'') two_nodes))
             = network two_nodes @ [(''c'', created [- 1, 0] (Some ''ice''))]"
    by blast+
  from d 1 2 3 4 5 n show ?thesis by simp
qed

section \<open>Reading the network after an update\<close>

lemma map_of_modify_node:
  "map_of (network (modify_node k f s)) k' =
     (if k' = k then map_option f (map_of (network s) k) else map_of (network s) k')"
proof -
  have "map_of (map (\<lambda>(k', n). if k' = k then (k', f n) else (k', n)) al) k' =
     (if k' = k then map_option f (map_of al k) else map_of al k')" for al
    by (induction al) auto
  then show ?thesis by (simp add: modify_node_def)
qed

lemma get_conn_set_conn:
  "get_conn (set_conn a b c s) a' b' =
     (if a' = a \<and> b' = b \<and> map_of (network s) a \<noteq> None then Some c else get_conn s a' b')"
  by (auto simp: get_conn_def set_conn_def map_of_modify_node update_conv' split: option.splits)

lemma get_conn_Date_now [simp]: "get_conn (snd (Date_now s)) a b = get_conn s a b"
  by (simp add: get_conn_def)

lemma map_of_set_conn_None [simp]:
  "map_of (network (set_conn a b c s)) k = None \<longleftrightarrow> map_of (network s) k = None"
  by (simp add: set_conn_def map_of_modify_node)

lemma potential_set_conn [simp]:
  "map_option potential (map_of (network (set_conn a b c s)) k) = map_option potential (map_of (network s) k)"
  by (auto simp: set_conn_def map_of_modify_node option.map_comp comp_def)

lemma get_conn_ensure_conn:
  "get_conn (snd (ensure_conn a b s)) a' b' =
     (if a' = a \<and> b' = b \<and> map_of (network s) a \<noteq> None \<and> get_conn s a b = None
      then Some (fst (ensure_conn a b s)) else get_conn s a' b')"
  by (auto simp: ensure_conn_def Date_now_def Let_def get_conn_set_conn split: option.splits)
     (simp_all add: get_conn_def)

lemma map_of_ensure_conn_None [simp]:
  "map_of (network (snd (ensure_conn a b s))) k = None \<longleftrightarrow> map_of (network s) k = None"
  by (simp add: ensure_conn_def Date_now_def Let_def split: option.splits)

lemma potential_ensure_conn [simp]:
  "map_option potential (map_of (network (snd (ensure_conn a b s))) k) = map_option potential (map_of (network s) k)"
  by (simp add: ensure_conn_def Date_now_def Let_def split: option.splits)

lemma get_conn_set_conn_other:
  "(a', b') \<noteq> (a, b) \<Longrightarrow> get_conn (set_conn a b c s) a' b' = get_conn s a' b'"
  by (auto simp: get_conn_set_conn)

lemma get_conn_ensure_conn_other:
  "(a', b') \<noteq> (a, b) \<Longrightarrow> get_conn (snd (ensure_conn a b s)) a' b' = get_conn s a' b'"
  by (auto simp: get_conn_ensure_conn)

text \<open>What \<^const>\<open>strengthen_pair\<close> leaves alone.\<close>

lemma strengthen_pair_other:
  assumes "(a', b') \<noteq> (a, b)" "(a', b') \<noteq> (b, a)"
  shows "get_conn (strengthen_pair a b s) a' b' = get_conn s a' b'"
proof (cases "map_of (network s) a = None \<or> map_of (network s) b = None")
  case True
  then show ?thesis by (auto simp: strengthen_pair_def split: option.splits)
next
  case False
  then obtain na nb where "map_of (network s) a = Some na" "map_of (network s) b = Some nb"
    by auto
  then show ?thesis using assms
    by (simp add: strengthen_pair_def Let_def case_prod_unfold get_conn_set_conn_other
          get_conn_ensure_conn_other del: split_paired_All)
qed

lemma strengthen_pair_potential [simp]:
  "map_option potential (map_of (network (strengthen_pair a b s)) k) = map_option potential (map_of (network s) k)"
  by (simp add: strengthen_pair_def Let_def case_prod_unfold Date_now_def split: option.splits)

lemma strengthen_pair_None [simp]:
  "map_of (network (strengthen_pair a b s)) k = None \<longleftrightarrow> map_of (network s) k = None"
  by (simp add: strengthen_pair_def Let_def case_prod_unfold Date_now_def split: option.splits)

section \<open>Strengthening a path\<close>

lemma get_conn_ticks [simp]: "get_conn (s\<lparr>ticks := t\<rparr>) a b = get_conn s a b"
  by (simp add: get_conn_def)

lemma strengthen_pair_fresh:
  assumes a: "map_of (network s) a = Some na" and b: "map_of (network s) b = Some nb"
    and ab: "a \<noteq> b"
    and none: "get_conn s a b = None" "get_conn s b a = None"
  shows "get_conn (strengthen_pair a b s) a b =
           Some \<lparr>weight = Math_tanh (0.1 + 0.1 * potential na * potential nb),
                 c_lastFired = clock s (Suc (ticks s)), plasticityRate = 0.1\<rparr>"
    and "get_conn (strengthen_pair a b s) b a =
           Some \<lparr>weight = Math_tanh (0.1 + 0.1 * potential na * potential nb * 0.7),
                 c_lastFired = clock s (Suc (Suc (ticks s))), plasticityRate = 0.1\<rparr>"
proof -
  define c0 where "c0 = \<lparr>weight = 0.1, c_lastFired = clock s (ticks s), plasticityRate = 0.1\<rparr>"
  define s1 where "s1 = set_conn a b c0 (s\<lparr>ticks := Suc (ticks s)\<rparr>)"
  have e1: "ensure_conn a b s = (c0, s1)"
    using none by (simp add: ensure_conn_def Date_now_def c0_def s1_def Let_def)
  define c1 where "c1 = c0\<lparr>weight := Math_tanh (weight c0 + plasticityRate c0 * potential na * potential nb),
      c_lastFired := clock s (Suc (ticks s))\<rparr>"
  define s3 where "s3 = set_conn a b c1 (s1\<lparr>ticks := Suc (ticks s1)\<rparr>)"
  have t1: "ticks s1 = Suc (ticks s)" "clock s1 = clock s"
    by (simp_all add: s1_def set_conn_def modify_node_def)
  have g3: "get_conn s3 b a = None"
    using none ab by (simp add: s3_def s1_def get_conn_set_conn)
  define r0 where "r0 = \<lparr>weight = 0.1, c_lastFired = clock s (Suc (Suc (ticks s))), plasticityRate = 0.1\<rparr>"
  have t3: "ticks s3 = Suc (Suc (ticks s))" "clock s3 = clock s"
    using t1 by (simp_all add: s3_def set_conn_def modify_node_def)
  define s4 where "s4 = set_conn b a r0 (s3\<lparr>ticks := Suc (ticks s3)\<rparr>)"
  have e2: "ensure_conn b a s3 = (r0, s4)"
    using g3 t3 by (simp add: ensure_conn_def Date_now_def r0_def s4_def Let_def)
  define r1 where "r1 = r0\<lparr>weight := Math_tanh (weight r0 + plasticityRate c0 * potential na * potential nb * 0.7)\<rparr>"
  have res: "strengthen_pair a b s = set_conn b a r1 s4"
    using a b e1 e2 t1
    by (simp add: strengthen_pair_def Let_def Date_now_def s3_def c1_def r1_def)
  have pres: "map_of (network s4) b \<noteq> None" "map_of (network s3) a \<noteq> None"
    "map_of (network s1) a \<noteq> None"
    using a b by (simp_all add: s4_def s3_def s1_def)
  have pa: "map_of (network (s1\<lparr>ticks := Suc (ticks s1)\<rparr>)) a \<noteq> None"
    using pres by simp
  have pb: "map_of (network s4) b \<noteq> None" by fact
  show "get_conn (strengthen_pair a b s) a b =
           Some \<lparr>weight = Math_tanh (0.1 + 0.1 * potential na * potential nb),
                 c_lastFired = clock s (Suc (ticks s)), plasticityRate = 0.1\<rparr>"
    using ab pa by (simp add: res get_conn_set_conn s4_def s3_def) (simp add: c1_def c0_def)
  show "get_conn (strengthen_pair a b s) b a =
           Some \<lparr>weight = Math_tanh (0.1 + 0.1 * potential na * potential nb * 0.7),
                 c_lastFired = clock s (Suc (Suc (ticks s))), plasticityRate = 0.1\<rparr>"
    using pb by (simp add: res get_conn_set_conn) (simp add: r1_def r0_def c0_def)
qed

lemma strengthen_pairs_append:
  "strengthen_pairs (pre @ a # rest) s = strengthen_pairs (a # rest) (strengthen_pairs (pre @ [a]) s)"
proof (induction pre arbitrary: s)
  case Nil
  then show ?case by simp
next
  case (Cons x pre)
  show ?case
  proof (cases pre)
    case Nil
    then show ?thesis by simp
  next
    case (Cons y ys)
    with Cons.IH show ?thesis by simp
  qed
qed

lemma strengthen_pairs_other:
  "a \<notin> set path \<or> b \<notin> set path \<Longrightarrow> get_conn (strengthen_pairs path s) a b = get_conn s a b"
proof (induction path s rule: strengthen_pairs.induct)
  case (1 x y rest s)
  then have "(a, b) \<noteq> (x, y)" "(a, b) \<noteq> (y, x)" by auto
  from strengthen_pair_other[OF this] 1 show ?case by auto
qed simp_all

lemma strengthen_pairs_potential [simp]:
  "map_option potential (map_of (network (strengthen_pairs path s)) k) = map_option potential (map_of (network s) k)"
  by (induction path s rule: strengthen_pairs.induct) simp_all

lemma strengthen_pairs_None [simp]:
  "map_of (network (strengthen_pairs path s)) k = None \<longleftrightarrow> map_of (network s) k = None"
  by (induction path s rule: strengthen_pairs.induct) simp_all

text \<open>The decay of the connections that the path does not use.\<close>

lemma map_of_weaken:
  "map_of (map (weaken_conn path) cs) b =
     map_option (\<lambda>c. if b \<in> set path then c else c\<lparr>weight := weight c * 0.99\<rparr>) (map_of cs b)"
  by (induction cs) (auto simp: weaken_conn_def)

lemma get_conn_weaken_unused:
  "get_conn (weaken_unused path k s) a b =
     (if a = k \<and> b \<notin> set path
      then map_option (\<lambda>c. c\<lparr>weight := weight c * 0.99\<rparr>) (get_conn s a b)
      else get_conn s a b)"
  by (cases "map_of (network s) k")
     (auto simp: get_conn_def weaken_unused_def map_of_modify_node map_of_weaken
        option.map_ident split: option.splits)

lemma decay_pass_in_path:
  "b \<in> set path \<Longrightarrow> get_conn (fold (weaken_unused path) ks s) a b = get_conn s a b"
  by (induction ks arbitrary: s) (simp_all add: get_conn_weaken_unused)


lemma excited_strengthened:
  "network (strengthenPath [''a'', ''b''] excited) =
     [(''a'', \<lparr>potential = 20,
         connections = [(''b'', \<lparr>weight = 1, c_lastFired = 1001, plasticityRate = 1/10\<rparr>)],
         decay = 9/10, threshold = 1/2, refractoryPeriod = 100, lastFired = 0,
         embedding = Some [1, 0], semanticContent = Some ''water''\<rparr>),
      (''b'', \<lparr>potential = 20,
         connections = [(''a'', \<lparr>weight = 1, c_lastFired = 1002, plasticityRate = 1/10\<rparr>)],
         decay = 9/10, threshold = 1/2, refractoryPeriod = 100, lastFired = 0,
         embedding = Some [0, 1], semanticContent = Some ''fire''\<rparr>)]"
  by (simp add: excited_def new_instance_def strengthenPath_def
        strengthen_pair_def ensure_conn_def get_conn_def set_conn_def modify_node_def
        Date_now_def weaken_unused_def weaken_conn_def Let_def Math_tanh_def)

text \<open>
  On two unconnected nodes of potential \<open>20\<close> the increment is \<open>0.1 * 20 * 20 = 40\<close>, and
  \<^verbatim>\<open>Math.tanh\<close> gives the weight \<open>1\<close> in both directions: the reverse weight has gained as
  much over the creation default as the forward weight, not less.
\<close>

theorem strengthenPath_increment_counterexample:
  "get_conn excited ''a'' ''b'' = None \<and> get_conn excited ''b'' ''a'' = None \<and>
   map_option potential (map_of (network excited) ''a'') = Some 20 \<and>
   map_option potential (map_of (network excited) ''b'') = Some 20 \<and>
   0 < (0.1 * 20 * 20 :: real) \<and>
   map_option weight (get_conn (strengthenPath [''a'', ''b''] excited) ''a'' ''b'') = Some 1 \<and>
   map_option weight (get_conn (strengthenPath [''a'', ''b''] excited) ''b'' ''a'') = Some 1 \<and>
   \<not> (1 - 0.1 < 1 - (0.1 :: real))"
proof -
  have "get_conn excited ''a'' ''b'' = None" "get_conn excited ''b'' ''a'' = None"
    "map_option potential (map_of (network excited) ''a'') = Some 20"
    "map_option potential (map_of (network excited) ''b'') = Some 20"
    by (simp_all add: excited_def new_instance_def get_conn_def)
  moreover have
    "map_option weight (get_conn (strengthenPath [''a'', ''b''] excited) ''a'' ''b'') = Some 1"
    "map_option weight (get_conn (strengthenPath [''a'', ''b''] excited) ''b'' ''a'') = Some 1"
    by (simp_all add: get_conn_def excited_strengthened)
  ultimately show ?thesis by simp
qed

text \<open>
  C5. Let \<open>a\<close> and \<open>b\<close> be consecutive nodes of a path without repetition (as the paths
  are that \<^verbatim>\<open>learn\<close> and \<^verbatim>\<open>think\<close> pass), with no connection between them in either
  direction. After \<^verbatim>\<open>strengthenPath\<close> both connections exist, with plasticity rate \<open>0.1\<close>;
  with \<open>delta = 0.1 * a.potential * b.potential\<close> the forward weight is
  \<open>Math.tanh (0.1 + delta)\<close> and the reverse weight is \<open>Math.tanh (0.1 + delta * 0.7)\<close>, so
  for a positive \<open>delta\<close> the reverse weight has gained no more over the creation default
  \<open>0.1\<close> than the forward weight.
\<close>

theorem strengthenPath_bidirectional:
  assumes "distinct (pre @ a # b # post)"
    and "map_of (network s) a = Some na" and "map_of (network s) b = Some nb"
    and "get_conn s a b = None" and "get_conn s b a = None"
  shows "\<exists>forward reverse.
      get_conn (strengthenPath (pre @ a # b # post) s) a b = Some forward \<and>
      get_conn (strengthenPath (pre @ a # b # post) s) b a = Some reverse \<and>
      plasticityRate forward = 0.1 \<and> plasticityRate reverse = 0.1 \<and>
      weight forward = Math_tanh (0.1 + 0.1 * potential na * potential nb) \<and>
      weight reverse = Math_tanh (0.1 + 0.1 * potential na * potential nb * 0.7) \<and>
      (0 < 0.1 * potential na * potential nb \<longrightarrow> weight reverse - 0.1 \<le> weight forward - 0.1)"
proof -
  let ?path = "pre @ a # b # post"
  define s1 where "s1 = strengthen_pairs (pre @ [a]) s"
  define s2 where "s2 = strengthen_pair a b s1"
  have ab: "a \<noteq> b" "b \<notin> set (pre @ [a])" "a \<notin> set (b # post)"
    using assms(1) by auto
  have pairs: "strengthen_pairs ?path s = strengthen_pairs (b # post) s2"
    using strengthen_pairs_append[of pre a "b # post" s] by (simp add: s1_def s2_def)
  have n1: "get_conn s1 a b = None" "get_conn s1 b a = None"
    using ab assms(4,5) strengthen_pairs_other[of a "pre @ [a]" b s]
      strengthen_pairs_other[of b "pre @ [a]" a s] by (simp_all add: s1_def)
  obtain na' nb' where n': "map_of (network s1) a = Some na'" "map_of (network s1) b = Some nb'"
    using assms(2,3) strengthen_pairs_None[of "pre @ [a]" s] unfolding s1_def
    by (metis not_Some_eq)
  have "map_option potential (map_of (network s1) a) = Some (potential na)"
    "map_option potential (map_of (network s1) b) = Some (potential nb)"
    using assms(2,3) by (simp_all add: s1_def)
  with n' have p': "potential na' = potential na" "potential nb' = potential nb" by simp_all
  note fresh = strengthen_pair_fresh[OF n' ab(1) n1, folded s2_def, unfolded p']
  have keep: "get_conn (strengthenPath ?path s) x y = get_conn s2 x y"
    if "(x, y) = (a, b) \<or> (x, y) = (b, a)" for x y
  proof -
    have "y \<in> set ?path" using that by auto
    then have "get_conn (strengthenPath ?path s) x y = get_conn (strengthen_pairs ?path s) x y"
      unfolding strengthenPath_def by (rule decay_pass_in_path)
    also have "\<dots> = get_conn s2 x y"
      unfolding pairs using that ab strengthen_pairs_other[of x "b # post" y s2] by auto
    finally show ?thesis .
  qed
  have mono: "0 < 0.1 * potential na * potential nb \<longrightarrow>
      Math_tanh (0.1 + 0.1 * potential na * potential nb * 0.7) - 0.1
        \<le> Math_tanh (0.1 + 0.1 * potential na * potential nb) - (0.1 :: real)"
  proof
    assume "0 < 0.1 * potential na * potential nb"
    then have "0.1 + 0.1 * potential na * potential nb * 0.7
        \<le> 0.1 + 0.1 * potential na * potential nb" by simp
    from Math_tanh_mono[OF this]
    show "Math_tanh (0.1 + 0.1 * potential na * potential nb * 0.7) - 0.1
        \<le> Math_tanh (0.1 + 0.1 * potential na * potential nb) - (0.1 :: real)" by simp
  qed
  show ?thesis
    using fresh mono by (simp add: keep)
qed

theorem strengthenPath_bidirectional_witness:
  "distinct [''a'', ''b''] \<and>
   get_conn unconnected ''a'' ''b'' = None \<and> get_conn unconnected ''b'' ''a'' = None \<and>
   map_option potential (map_of (network unconnected) ''a'') = Some 1 \<and>
   map_option potential (map_of (network unconnected) ''b'') = Some 1 \<and>
   map_option weight (get_conn (strengthenPath [''a'', ''b''] unconnected) ''a'' ''b'')
     = Some (tanh (1/5)) \<and>
   map_option weight (get_conn (strengthenPath [''a'', ''b''] unconnected) ''b'' ''a'')
     = Some (tanh (17/100)) \<and>
   map_option plasticityRate (get_conn (strengthenPath [''a'', ''b''] unconnected) ''a'' ''b'')
     = Some (1/10) \<and>
   map_option plasticityRate (get_conn (strengthenPath [''a'', ''b''] unconnected) ''b'' ''a'')
     = Some (1/10)"
proof -
  obtain na nb where n: "map_of (network unconnected) ''a'' = Some na" "potential na = 1"
    "map_of (network unconnected) ''b'' = Some nb" "potential nb = 1"
    by (simp add: unconnected_def createNode_def new_instance_def)
  have none: "get_conn unconnected ''a'' ''b'' = None" "get_conn unconnected ''b'' ''a'' = None"
    by (simp_all add: unconnected_def createNode_def new_instance_def get_conn_def)
  have d: "distinct ([] @ ''a'' # ''b'' # [])" by simp
  have t: "Math_tanh (1/5) = tanh (1/5)" "Math_tanh (17/100) = tanh (17/100)"
    by (simp_all add: Math_tanh_def)
  from strengthenPath_bidirectional [OF d n(1) n(3) none] n(2,4) none n(1,3) t
  show ?thesis by auto
qed

text \<open>The hyperbolic tangent grows more slowly than its argument.\<close>

lemma tanh_gap:
  fixes x y :: real
  assumes "0 < x" "x < y"
  shows "tanh y - tanh x < y - x"
proof -
  have "(\<lambda>t. t - tanh t) x < (\<lambda>t. t - tanh t) y"
  proof (rule DERIV_pos_imp_increasing[OF assms(2)])
    fix t :: real
    assume t: "x \<le> t" "t \<le> y"
    have "((\<lambda>t. t - tanh t) has_real_derivative (1 - (1 - tanh t ^ 2))) (at t)"
      by (auto intro!: derivative_eq_intros)
    moreover have "0 < tanh t" using t assms(1) by simp
    then have "0 < 1 - (1 - tanh t ^ 2)" by simp
    ultimately show "\<exists>y. ((\<lambda>t. t - tanh t) has_real_derivative y) (at t) \<and> 0 < y"
      by blast
  qed
  then show ?thesis by simp
qed

text \<open>
  On the path \<open>[a, b, a]\<close> the pair is strengthened a second time, in the other direction,
  and the connection from \<open>b\<close> to \<open>a\<close> ends with the larger weight. The paths that \<^verbatim>\<open>learn\<close>
  and \<^verbatim>\<open>think\<close> pass hold no node twice (\<open>findResonantNodes_distinct\<close> and
  \<open>propagateActivation_distinct\<close> below).
\<close>

lemma repeated_network:
  "network (strengthenPath [''a'', ''b'', ''a''] unconnected) =
     [(''a'', \<lparr>potential = 1,
         connections = [(''b'', \<lparr>weight = Math_tanh (tanh (1/5) + 7/100), c_lastFired = 1001, plasticityRate = 1/10\<rparr>)],
         decay = 9/10, threshold = 1/2, refractoryPeriod = 100, lastFired = 0,
         embedding = Some [1, 0], semanticContent = Some ''water''\<rparr>),
      (''b'', \<lparr>potential = 1,
         connections = [(''a'', \<lparr>weight = Math_tanh (tanh (17/100) + 1/10), c_lastFired = 1003, plasticityRate = 1/10\<rparr>)],
         decay = 9/10, threshold = 1/2, refractoryPeriod = 100, lastFired = 0,
         embedding = Some [0, 1], semanticContent = Some ''fire''\<rparr>)]"
  by (simp add: unconnected_def createNode_def new_instance_def strengthenPath_def
        strengthen_pair_def ensure_conn_def get_conn_def set_conn_def modify_node_def
        Date_now_def weaken_unused_def weaken_conn_def Let_def Math_tanh_def)

lemma strengthenPath_repeated_pair:
  "get_conn unconnected ''a'' ''b'' = None \<and> get_conn unconnected ''b'' ''a'' = None \<and>
   map_option weight (get_conn (strengthenPath [''a'', ''b'', ''a''] unconnected) ''a'' ''b'')
     = Some (tanh (tanh (1/5) + 7/100)) \<and>
   map_option weight (get_conn (strengthenPath [''a'', ''b'', ''a''] unconnected) ''b'' ''a'')
     = Some (tanh (tanh (17/100) + 1/10)) \<and>
   tanh (tanh (1/5) + 7/100) - 1/10 < tanh (tanh (17/100) + 1/10) - (1/10 :: real)"
proof -
  have none: "get_conn unconnected ''a'' ''b'' = None" "get_conn unconnected ''b'' ''a'' = None"
    by (simp_all add: unconnected_def createNode_def new_instance_def get_conn_def)
  have b: "\<bar>tanh x + k\<bar> < 20" if "\<bar>k\<bar> \<le> 1" for x k :: real
    using tanh_real_lt_1[of x] tanh_real_gt_neg1[of x] that by (simp add: abs_less_iff abs_le_iff)
  have t: "Math_tanh (tanh (1/5) + 7/100) = tanh (tanh (1/5) + 7/100)"
    "Math_tanh (tanh (17/100) + 1/10) = tanh (tanh (17/100) + 1/10)"
    by (rule Math_tanh_small, rule b, simp)+
  have w: "map_option weight (get_conn (strengthenPath [''a'', ''b'', ''a''] unconnected) ''a'' ''b'')
      = Some (tanh (tanh (1/5) + 7/100))"
    "map_option weight (get_conn (strengthenPath [''a'', ''b'', ''a''] unconnected) ''b'' ''a'')
      = Some (tanh (tanh (17/100) + 1/10))"
    by (simp_all add: get_conn_def repeated_network t)
  from tanh_gap[of "17/100" "1/5"] have "tanh (1/5) + 7/100 < tanh (17/100) + (1/10 :: real)"
    by simp
  then have "tanh (tanh (1/5) + 7/100) - 1/10 < tanh (tanh (17/100) + 1/10) - (1/10 :: real)"
    by simp
  with none w show ?thesis by blast
qed



text \<open>The network of \<^const>\<open>two_nodes\<close> is one that \<^verbatim>\<open>initialize\<close> loads from a file.\<close>

lemma two_nodes_loaded:
  "initialize (new_instance (\<lambda>k. 1000) (Document two_nodes_document))
     = Inr (two_nodes\<lparr>isInitialized := True, disk := Document two_nodes_document\<rparr>)"
proof -
  have idx: "array_index ''a'' = None" "array_index ''b'' = None"
    by (simp_all add: array_index_def is_digit_def)
  show ?thesis
    by (simp add: initialize_loads loadNetwork_reached try_load_def new_instance_def
          two_nodes_document_def Object_entries_def idx node_of_data_def new_Map_def
          or_absent_def two_nodes_def)
qed

lemma excited_loaded:
  "initialize (new_instance (\<lambda>k. 1000 + real k) (Document excited_document))
     = Inr (excited\<lparr>isInitialized := True, disk := Document excited_document\<rparr>)"
proof -
  have idx: "array_index ''a'' = None" "array_index ''b'' = None"
    by (simp_all add: array_index_def is_digit_def)
  show ?thesis
    by (simp add: initialize_loads loadNetwork_reached try_load_def new_instance_def
          excited_document_def Object_entries_def idx node_of_data_def new_Map_def
          or_absent_def excited_def)
qed


section \<open>The paths that are strengthened\<close>

text \<open>
  \<^verbatim>\<open>strengthenPath\<close> is called on the result of \<^verbatim>\<open>findResonantNodes\<close> (in \<^verbatim>\<open>learn\<close>) and on
  the result of \<^verbatim>\<open>propagateActivation\<close> seeded with it (in \<^verbatim>\<open>think\<close>). Neither holds a node
  twice.
\<close>

lemma findResonantNodes_distinct:
  "distinct (map fst (network s)) \<Longrightarrow> distinct (fst (findResonantNodes new_id q content s))"
  by (simp add: findResonantNodes_def createNode_def Let_def case_prod_unfold resonate_distinct)

lemma path_visited_activate:
  "path_visited ps \<Longrightarrow> path_visited (activate params e now cur c ps)"
  by (cases c) (auto simp: activate_def path_visited_def Let_def split: option.splits)

lemma path_visited_fold_activate:
  "path_visited ps \<Longrightarrow> path_visited (fold (activate params e now cur) cs ps)"
  by (induction cs arbitrary: ps) (simp_all add: path_visited_activate)

lemma path_visited_fire: "path_visited ps \<Longrightarrow> path_visited (fire params e cur ps)"
proof -
  assume p: "path_visited ps"
  then have "path_visited (ps\<lparr>this := t\<rparr>)" for t by (simp add: path_visited_def)
  with p show ?thesis
    by (simp add: fire_def Let_def case_prod_unfold path_visited_fold_activate split: option.splits)
qed

lemma path_visited_propagate_loop:
  "path_visited ps \<Longrightarrow> path_visited (propagate_loop params e ps)"
proof (induction params e ps rule: propagate_loop.induct)
  case (1 params e ps)
  show ?case
  proof (cases "wavefront ps")
    case Nil
    with 1(2) show ?thesis by (simp add: propagate_loop.simps[of params e ps])
  next
    case (Cons current rest)
    from 1(2) have "path_visited (ps\<lparr>wavefront := rest\<rparr>)" by (simp add: path_visited_def)
    from 1(1)[OF Cons path_visited_fire[OF this]] Cons show ?thesis
      by (simp add: propagate_loop.simps[of params e ps])
  qed
qed

lemma propagateActivation_distinct:
  assumes "distinct startNodes"
  shows "distinct (fst (propagateActivation startNodes params s))"
proof -
  have "path_visited \<lparr>this = s, visited = set startNodes, wavefront = startNodes,
      activatedPath = startNodes\<rparr>"
    using assms by (simp add: path_visited_def)
  from path_visited_propagate_loop[OF this] show ?thesis
    by (simp add: propagateActivation_def Let_def path_visited_def)
qed

section \<open>What propagation leaves unchanged\<close>

lemma frame_refl [simp]: "frame s s"
  by (simp add: frame_def list_all2_refl same_but_activation_def case_prod_unfold list.rel_refl)

lemma frame_same_network: "network s' = network s \<Longrightarrow> frame s s'"
  by (simp add: frame_def same_but_activation_def case_prod_unfold list.rel_refl)

lemma frame_trans: "frame s s' \<Longrightarrow> frame s' s'' \<Longrightarrow> frame s s''"
proof -
  assume a: "frame s s'" and b: "frame s' s''"
  have "list_all2 (\<lambda>(k, n) (k', n'). k' = k \<and> same_but_activation n n') (network s) (network s'')"
    by (rule list_all2_trans[OF _ a[unfolded frame_def] b[unfolded frame_def]])
       (auto simp: same_but_activation_def)
  then show ?thesis by (simp add: frame_def)
qed

lemma frame_network_cong: "network t = network s' \<Longrightarrow> frame s s' \<Longrightarrow> frame s t"
  by (simp add: frame_def)

lemma frame_modify_node:
  assumes "\<And>n. same_but_activation n (f n)"
  shows "frame s (modify_node k f s)"
  unfolding frame_def modify_node_def
  using assms by (simp add: list_all2_map2 case_prod_unfold list.rel_refl_strong same_but_activation_def)

lemma frame_activate: "frame (this ps) (this (activate params e now cur c ps))"
proof -
  have 1: "same_but_activation n (n\<lparr>potential := p\<rparr>)" for n p
    by (simp add: same_but_activation_def)
  have 2: "same_but_activation n (n\<lparr>lastFired := t\<rparr>)" for n t
    by (simp add: same_but_activation_def)
  have m1: "frame s (modify_node k (\<lambda>n. n\<lparr>potential := p\<rparr>) s)" for s k p
    by (rule frame_modify_node) (rule 1)
  have m2: "frame s (modify_node k (\<lambda>n. n\<lparr>lastFired := t\<rparr>) s)" for s k t
    by (rule frame_modify_node) (rule 2)
  have m3: "frame s (updateCoherenceMetrics path
      (modify_node k (\<lambda>n. n\<lparr>lastFired := t\<rparr>) (modify_node k (\<lambda>n. n\<lparr>potential := p\<rparr>) s)))" for s k p t path
    by (rule frame_network_cong[OF _ frame_trans[OF m1 m2]]) simp
  show ?thesis
    by (auto simp: activate_def Let_def m1 m3 split: prod.splits option.splits)
qed

lemma frame_fold_activate:
  "frame (this ps) (this (fold (activate params e now cur) cs ps))"
proof (induction cs arbitrary: ps)
  case Nil
  show ?case by simp
next
  case (Cons c cs)
  from frame_trans[OF frame_activate Cons] show ?case by simp
qed

lemma frame_fire: "frame (this ps) (this (fire params e cur ps))"
proof (cases "map_of (network (this ps)) cur")
  case None
  then show ?thesis by (simp add: fire_def)
next
  case (Some current)
  let ?s1 = "modify_node cur (\<lambda>n. n\<lparr>potential := potential n * p_decay params\<rparr>) (this ps)"
  have "frame (this ps) ?s1"
    by (rule frame_modify_node) (simp add: same_but_activation_def)
  then have f2: "frame (this ps) (snd (Date_now ?s1))"
    by (rule frame_network_cong[rotated]) simp
  have "frame (snd (Date_now ?s1))
     (this (fold (activate params e (fst (Date_now ?s1)) cur) (connections current)
        (ps\<lparr>this := snd (Date_now ?s1)\<rparr>)))"
    using frame_fold_activate[of "ps\<lparr>this := snd (Date_now ?s1)\<rparr>"] by simp
  from frame_trans[OF f2 this] f2 Some show ?thesis
    by (simp add: fire_def Let_def case_prod_unfold)
qed

lemma frame_propagate_loop: "frame (this ps) (this (propagate_loop params e ps))"
proof (induction params e ps rule: propagate_loop.induct)
  case (1 params e ps)
  show ?case
  proof (cases "wavefront ps")
    case Nil
    then show ?thesis by (simp add: propagate_loop.simps)
  next
    case (Cons current rest)
    have "frame (this ps) (this (fire params e current (ps\<lparr>wavefront := rest\<rparr>)))"
      using frame_fire[of "ps\<lparr>wavefront := rest\<rparr>"] by simp
    from frame_trans[OF this 1[OF Cons]] Cons show ?thesis
      by (simp add: propagate_loop.simps[of params e ps])
  qed
qed

text \<open>
  C10. \<^verbatim>\<open>propagateActivation\<close> changes at most the \<^verbatim>\<open>potential\<close> and the \<^verbatim>\<open>lastFired\<close> of the
  nodes of the network: the network holds the same ids in the same order afterwards, and
  every node has the connections (neighbours, weights, plasticity rates, times), the decay,
  the threshold, the refractory period, the embedding and the semantic content it had.
\<close>

theorem propagateActivation_frame:
  "frame s (snd (propagateActivation startNodes params s))"
  using frame_propagate_loop
    [of "\<lparr>this = s, visited = set startNodes, wavefront = startNodes, activatedPath = startNodes\<rparr>"]
  by (simp add: propagateActivation_def Let_def)

section \<open>The bound on the weights\<close>

lemma set_update_subset: "set (AList.update k v al) \<subseteq> insert (k, v) (set al)"
  by (induction al) auto

lemma weights_bounded_network_cong:
  "network s' = network s \<Longrightarrow> weights_bounded s' = weights_bounded s"
  by (simp add: weights_bounded_def)

lemma weights_bounded_iff: "weights_bounded s \<longleftrightarrow> (\<forall>(k, n)\<in>set (network s). conns_bounded n)"
  by (simp add: weights_bounded_def conns_bounded_def)

lemma weights_bounded_modify_node:
  assumes "weights_bounded s" and "\<And>n. conns_bounded n \<Longrightarrow> conns_bounded (f n)"
  shows "weights_bounded (modify_node k f s)"
proof -
  have "conns_bounded n'" if "(k', n') \<in> set (network (modify_node k f s))" for k' n'
  proof -
    from that obtain n where n: "(k', n) \<in> set (network s)" "n' = f n \<or> n' = n"
      by (auto simp: modify_node_def split: if_splits)
    with assms(1) have "conns_bounded n" by (auto simp: weights_bounded_iff)
    with n(2) assms(2) show ?thesis by auto
  qed
  then show ?thesis by (auto simp: weights_bounded_iff)
qed

lemma weights_bounded_set_conn:
  assumes "weights_bounded s" "- 1 \<le> weight c" "weight c \<le> 1"
  shows "weights_bounded (set_conn a b c s)"
  unfolding set_conn_def
proof (rule weights_bounded_modify_node[OF assms(1)])
  fix n
  assume "conns_bounded n"
  then show "conns_bounded (n\<lparr>connections := AList.update b c (connections n)\<rparr>)"
    using set_update_subset[of b c "connections n"] assms(2,3)
    unfolding conns_bounded_def by (simp del: AList.update.simps) blast
qed

lemma get_conn_bounded:
  "weights_bounded s \<Longrightarrow> get_conn s a b = Some c \<Longrightarrow> - 1 \<le> weight c \<and> weight c \<le> 1"
  by (auto simp: weights_bounded_def get_conn_def split: option.splits dest!: map_of_SomeD)

lemma weights_bounded_Date_now [simp]: "weights_bounded (snd (Date_now s)) = weights_bounded s"
  by (simp add: weights_bounded_def)

lemma weights_bounded_ensure_conn:
  assumes "weights_bounded s"
  shows "weights_bounded (snd (ensure_conn a b s))"
proof (cases "get_conn s a b")
  case None
  have "weights_bounded (set_conn a b
      \<lparr>weight = 0.1, c_lastFired = fst (Date_now s), plasticityRate = 0.1\<rparr> (snd (Date_now s)))"
    by (rule weights_bounded_set_conn) (simp_all add: assms)
  with None show ?thesis by (simp add: ensure_conn_def Let_def case_prod_unfold)
next
  case (Some c)
  with assms show ?thesis by (simp add: ensure_conn_def)
qed

lemma weights_bounded_strengthen_pair:
  assumes "weights_bounded s"
  shows "weights_bounded (strengthen_pair a b s)"
proof (cases "map_of (network s) a = None \<or> map_of (network s) b = None")
  case True
  then show ?thesis using assms by (auto simp: strengthen_pair_def split: option.splits)
next
  case False
  then obtain current "next" where n: "map_of (network s) a = Some current"
    "map_of (network s) b = Some next"
    by auto
  define s1 where "s1 = snd (ensure_conn a b s)"
  define c where "c = fst (ensure_conn a b s)"
  define d where "d = plasticityRate c * potential current * potential next"
  define s3 where "s3 = set_conn a b
      (c\<lparr>weight := Math_tanh (weight c + d), c_lastFired := fst (Date_now s1)\<rparr>) (snd (Date_now s1))"
  define r where "r = fst (ensure_conn b a s3)"
  have b1: "weights_bounded s1"
    unfolding s1_def by (rule weights_bounded_ensure_conn[OF assms])
  have b3: "weights_bounded s3"
    unfolding s3_def by (rule weights_bounded_set_conn) (simp_all add: b1 Math_tanh_bounds)
  have b4: "weights_bounded (set_conn b a (r\<lparr>weight := Math_tanh (weight r + d * 0.7)\<rparr>)
      (snd (ensure_conn b a s3)))"
    by (rule weights_bounded_set_conn)
       (simp_all add: weights_bounded_ensure_conn[OF b3] Math_tanh_bounds)
  have "strengthen_pair a b s = set_conn b a (r\<lparr>weight := Math_tanh (weight r + d * 0.7)\<rparr>)
      (snd (ensure_conn b a s3))"
    using n by (simp add: strengthen_pair_def Let_def case_prod_unfold s1_def c_def d_def s3_def r_def)
  with b4 show ?thesis by simp
qed

lemma weights_bounded_strengthen_pairs:
  "weights_bounded s \<Longrightarrow> weights_bounded (strengthen_pairs path s)"
  by (induction path s rule: strengthen_pairs.induct)
     (simp_all add: weights_bounded_strengthen_pair)

lemma weights_bounded_weaken_unused:
  assumes "weights_bounded s"
  shows "weights_bounded (weaken_unused path k s)"
  unfolding weaken_unused_def
proof (rule weights_bounded_modify_node[OF assms])
  fix n
  assume "conns_bounded n"
  then show "conns_bounded (n\<lparr>connections := map (weaken_conn path) (connections n)\<rparr>)"
    unfolding conns_bounded_def by (auto simp: weaken_conn_def split: if_splits)
qed

lemma weights_bounded_decay_pass:
  "weights_bounded s \<Longrightarrow> weights_bounded (fold (weaken_unused path) ks s)"
  by (induction ks arbitrary: s) (simp_all add: weights_bounded_weaken_unused)

lemma weights_bounded_strengthenPath:
  "weights_bounded s \<Longrightarrow> weights_bounded (strengthenPath path s)"
  by (simp add: strengthenPath_def weights_bounded_decay_pass weights_bounded_strengthen_pairs)

lemma weights_bounded_frame:
  assumes "frame s s'" "weights_bounded s"
  shows "weights_bounded s'"
proof -
  from assms(1) have len: "length (network s) = length (network s')"
    and nth: "\<And>i. i < length (network s) \<Longrightarrow>
      (\<lambda>(k, n) (k', n'). k' = k \<and> same_but_activation n n') (network s ! i) (network s' ! i)"
    by (simp_all add: frame_def list_all2_conv_all_nth)
  have "conns_bounded n'" if "(k, n') \<in> set (network s')" for k n'
  proof -
    from that obtain i where i: "i < length (network s')" "network s' ! i = (k, n')"
      by (auto simp: in_set_conv_nth)
    obtain k0 n0 where x: "network s ! i = (k0, n0)" by (cases "network s ! i")
    from nth[of i] i len x have "connections n' = connections n0"
      by (simp add: same_but_activation_def)
    moreover have "(k0, n0) \<in> set (network s)"
      using i(1) len x by (metis nth_mem)
    with assms(2) have "conns_bounded n0" by (auto simp: weights_bounded_iff)
    ultimately show ?thesis by (simp add: conns_bounded_def)
  qed
  then show ?thesis by (auto simp: weights_bounded_iff)
qed

lemma frame_resonate: "frame s (s\<lparr>network := snd (resonate q (network s))\<rparr>)"
proof -
  have "same_but_activation n (tune q n)" for n
    by (simp add: same_but_activation_def tune_def split: option.splits)
  then show ?thesis
    by (simp add: frame_def resonate_network list_all2_map2 case_prod_unfold list.rel_refl_strong)
qed

lemma weights_bounded_createNode:
  assumes "weights_bounded s"
  shows "weights_bounded (snd (createNode new_id q content s))"
proof -
  have "conns_bounded n" if "(k, n) \<in> set (AList.update new_id (created q content) (network s))" for k n
  proof -
    from that set_update_subset[of new_id "created q content" "network s"]
    have "n = created q content \<or> (k, n) \<in> set (network s)" by auto
    with assms show ?thesis by (auto simp: weights_bounded_iff conns_bounded_def created_def)
  qed
  then show ?thesis
    by (auto simp: weights_bounded_iff createNode_def created_def)
qed

lemma weights_bounded_findResonantNodes:
  assumes "weights_bounded s"
  shows "weights_bounded (snd (findResonantNodes new_id q content s))"
proof -
  let ?s1 = "s\<lparr>network := snd (resonate q (network s))\<rparr>"
  from weights_bounded_frame[OF frame_resonate assms] have b1: "weights_bounded ?s1" .
  from weights_bounded_createNode[OF b1]
  have b2: "weights_bounded (snd (createNode new_id q content ?s1))" .
  show ?thesis using b1 b2
    by (simp add: findResonantNodes_def Let_def case_prod_unfold)
qed

lemma weights_bounded_apply_op: "weights_bounded s \<Longrightarrow> weights_bounded (apply_op op s)"
proof (cases op)
  case (Propagate startNodes params)
  assume "weights_bounded s"
  moreover have "frame s (snd (propagateActivation startNodes params s))"
    using frame_propagate_loop
      [of "\<lparr>this = s, visited = set startNodes, wavefront = startNodes, activatedPath = startNodes\<rparr>"]
    by (simp add: propagateActivation_def Let_def)
  ultimately show ?thesis
    by (simp add: Propagate weights_bounded_frame)
qed (simp_all add: weights_bounded_findResonantNodes weights_bounded_strengthenPath)

text \<open>
  The bound is attained. On two nodes of potential \<open>20\<close> without connections,
  \<^verbatim>\<open>strengthenPath\<close> creates the connection from \<open>a\<close> to \<open>b\<close> and sets its weight to
  \<^verbatim>\<open>Math.tanh(0.1 + 0.1 * 20 * 20)\<close>, which is \<open>1\<close>: not strictly below \<open>1\<close>.
\<close>

theorem weight_bound_counterexample:
  "map (\<lambda>(k, n). connections n) (network excited) = [[], []] \<and>
   map_option weight (get_conn (strengthenPath [''a'', ''b''] excited) ''a'' ''b'') = Some 1 \<and>
   Math_tanh (0.1 + 0.1 * 20 * 20) = 1 \<and>
   \<not> (1 :: real) < 1"
proof -
  have "map (\<lambda>(k, n). connections n) (network excited) = [[], []]"
    by (simp add: excited_def new_instance_def)
  moreover have
    "map_option weight (get_conn (strengthenPath [''a'', ''b''] excited) ''a'' ''b'') = Some 1"
    by (simp add: get_conn_def excited_strengthened)
  moreover have "Math_tanh (0.1 + 0.1 * 20 * 20) = 1"
    by (simp add: Math_tanh_def)
  ultimately show ?thesis by simp
qed

text \<open>
  C2. \<^verbatim>\<open>strengthenPath\<close> keeps every weight between \<open>-1\<close> and \<open>1\<close>, the bounds included,
  whatever the path and the potentials: \<^verbatim>\<open>Math.tanh\<close> has its values there, and the
  multiplication by \<open>0.99\<close> stays there. Hence, from a network without connections, after
  any history of calls of \<^verbatim>\<open>strengthenPath\<close>, \<^verbatim>\<open>findResonantNodes\<close> and
  \<^verbatim>\<open>propagateActivation\<close>, every connection (each one created by \<^verbatim>\<open>strengthenPath\<close> with
  weight \<open>0.1\<close>) has its weight between \<open>-1\<close> and \<open>1\<close>.
\<close>

theorem weights_stay_bounded:
  "(weights_bounded s \<longrightarrow> weights_bounded (strengthenPath path s)) \<and>
   ((\<forall>(k, n)\<in>set (network s). connections n = []) \<longrightarrow> weights_bounded (fold apply_op ops s))"
proof (intro conjI impI)
  assume "weights_bounded s"
  then show "weights_bounded (strengthenPath path s)" by (rule weights_bounded_strengthenPath)
next
  assume "\<forall>(k, n)\<in>set (network s). connections n = []"
  then have "weights_bounded s" by (auto simp: weights_bounded_def)
  then show "weights_bounded (fold apply_op ops s)"
    by (induction ops arbitrary: s) (simp_all add: weights_bounded_apply_op)
qed

theorem weights_stay_bounded_witness:
  "weights_bounded two_nodes \<and>
   weights_bounded (strengthenPath [''a'', ''b''] two_nodes) \<and>
   map (\<lambda>(k, n). connections n) (network unconnected) = [[], []] \<and>
   weights_bounded
     (fold apply_op
        [Strengthen [''a'', ''b''], Match ''c'' [1, 0] None, Propagate [''a''] broad,
         Strengthen [''a'', ''b'']]
        unconnected)"
proof -
  have b: "weights_bounded two_nodes"
    by (simp add: weights_bounded_def two_nodes_def new_instance_def)
  have e: "map (\<lambda>(k, n). connections n) (network unconnected) = [[], []]"
    by (simp add: unconnected_def createNode_def new_instance_def)
  then have h: "\<forall>(k, n)\<in>set (network unconnected). connections n = []"
    by (simp add: unconnected_def createNode_def new_instance_def)
  from weights_stay_bounded [of two_nodes "[''a'', ''b'']" "[]"] b
  have 1: "weights_bounded (strengthenPath [''a'', ''b''] two_nodes)" by blast
  from weights_stay_bounded [of unconnected "[]"
      "[Strengthen [''a'', ''b''], Match ''c'' [1, 0] None, Propagate [''a''] broad,
        Strengthen [''a'', ''b'']]"] h
  have 2: "weights_bounded
     (fold apply_op
        [Strengthen [''a'', ''b''], Match ''c'' [1, 0] None, Propagate [''a''] broad,
         Strengthen [''a'', ''b'']]
        unconnected)" by blast
  from b 1 e 2 show ?thesis by blast
qed

section \<open>The activation that reaches a neighbour\<close>

lemma tanh_le_self:
  fixes x :: real
  assumes "0 \<le> x"
  shows "tanh x \<le> x"
proof -
  have "(\<lambda>t. t - tanh t) 0 \<le> (\<lambda>t. t - tanh t) x"
  proof (rule DERIV_nonneg_imp_nondecreasing[OF assms])
    fix t :: real
    have "((\<lambda>t. t - tanh t) has_real_derivative (1 - (1 - tanh t ^ 2))) (at t)"
      by (auto intro!: derivative_eq_intros)
    moreover have "0 \<le> 1 - (1 - tanh t ^ 2)" by simp
    ultimately show "\<exists>y. ((\<lambda>t. t - tanh t) has_real_derivative y) (at t) \<and> 0 \<le> y"
      by blast
  qed
  then show ?thesis by simp
qed

text \<open>
  A step of the inner loop for the connection to \<open>cid\<close> leaves every other node alone, and
  every visited node.
\<close>

lemma activate_untouched:
  assumes "cid \<noteq> k \<or> k \<in> visited ps"
  shows "map_of (network (this (activate params e now cur (cid, c) ps))) k = map_of (network (this ps)) k"
    and "k \<in> visited (activate params e now cur (cid, c) ps) \<longleftrightarrow> k \<in> visited ps"
    and "count_list (wavefront (activate params e now cur (cid, c) ps)) k = count_list (wavefront ps) k"
proof -
  have ne: "cid \<noteq> k" if "cid \<notin> visited ps" using assms that by auto
  show "map_of (network (this (activate params e now cur (cid, c) ps))) k = map_of (network (this ps)) k"
    using ne by (auto simp: activate_def Let_def map_of_modify_node split: option.splits)
  show "k \<in> visited (activate params e now cur (cid, c) ps) \<longleftrightarrow> k \<in> visited ps"
    using ne by (auto simp: activate_def Let_def split: option.splits)
  show "count_list (wavefront (activate params e now cur (cid, c) ps)) k = count_list (wavefront ps) k"
    using ne by (auto simp: activate_def Let_def split: option.splits)
qed

lemma fold_activate_untouched:
  assumes "k \<notin> fst ` set cs \<or> k \<in> visited ps"
  shows "map_of (network (this (fold (activate params e now cur) cs ps))) k = map_of (network (this ps)) k
    \<and> (k \<in> visited (fold (activate params e now cur) cs ps) \<longleftrightarrow> k \<in> visited ps)
    \<and> count_list (wavefront (fold (activate params e now cur) cs ps)) k = count_list (wavefront ps) k"
  using assms
proof (induction cs arbitrary: ps)
  case Nil
  show ?case by simp
next
  case (Cons x cs)
  obtain cid c where x: "x = (cid, c)" by (cases x)
  from Cons.prems have h: "cid \<noteq> k \<or> k \<in> visited ps" by (auto simp: x)
  note u = activate_untouched[OF h, of params e now cur c]
  from Cons.prems u(2) have "k \<notin> fst ` set cs \<or> k \<in> visited (activate params e now cur (cid, c) ps)"
    by auto
  from Cons.IH[OF this] u show ?case by (simp add: x)
qed

lemma activate_target:
  assumes "b \<notin> visited ps"
    and "map_of (network (this ps)) b = Some nb"
    and "map_of (network (this ps)) cur = Some current"
  shows "map_option potential (map_of (network (this (activate params e now cur (b, c) ps))) b)
           = Some (potential nb + activation params e (potential current) (weight c))"
    and "p_threshold params < potential nb + activation params e (potential current) (weight c) \<Longrightarrow>
           b \<in> visited (activate params e now cur (b, c) ps) \<and>
           count_list (wavefront (activate params e now cur (b, c) ps)) b
             = Suc (count_list (wavefront ps) b)"
    and "\<not> p_threshold params < potential nb + activation params e (potential current) (weight c) \<Longrightarrow>
           b \<notin> visited (activate params e now cur (b, c) ps)"
  using assms
  by (simp_all add: activate_def Let_def activation_def map_of_modify_node)

lemma fold_activate_target:
  assumes d: "distinct (map fst cs)" and c: "map_of cs b = Some c"
    and b: "b \<notin> visited ps" "map_of (network (this ps)) b = Some nb"
    and cur: "cur \<in> visited ps" "map_of (network (this ps)) cur = Some current"
  shows "map_option potential (map_of (network (this (fold (activate params e now cur) cs ps))) b)
           = Some (potential nb + activation params e (potential current) (weight c))"
    and "p_threshold params < potential nb + activation params e (potential current) (weight c) \<Longrightarrow>
           b \<in> visited (fold (activate params e now cur) cs ps) \<and>
           count_list (wavefront (fold (activate params e now cur) cs ps)) b
             = Suc (count_list (wavefront ps) b)"
    and "\<not> p_threshold params < potential nb + activation params e (potential current) (weight c) \<Longrightarrow>
           b \<notin> visited (fold (activate params e now cur) cs ps)"
proof -
  from c have "(b, c) \<in> set cs" by (rule map_of_SomeD)
  then obtain pre post where cs: "cs = pre @ (b, c) # post" by (auto dest: split_list)
  with d have nb: "b \<notin> fst ` set pre" "b \<notin> fst ` set post" by auto
  define ps1 where "ps1 = fold (activate params e now cur) pre ps"
  define ps2 where "ps2 = activate params e now cur (b, c) ps1"
  have res: "fold (activate params e now cur) cs ps = fold (activate params e now cur) post ps2"
    by (simp add: cs ps1_def ps2_def)
  from fold_activate_untouched[of b pre ps params e now cur] nb(1) b
  have b1: "b \<notin> visited ps1" "map_of (network (this ps1)) b = Some nb"
    by (simp_all add: ps1_def)
  from fold_activate_untouched[of cur pre ps params e now cur] cur
  have c1: "map_of (network (this ps1)) cur = Some current"
    by (simp add: ps1_def)
  note t = activate_target[OF b1 c1, where params = params and e = e and now = now and c = c,
      folded ps2_def]
  note u = fold_activate_untouched[of b post ps2 params e now cur]
  show "map_option potential (map_of (network (this (fold (activate params e now cur) cs ps))) b)
           = Some (potential nb + activation params e (potential current) (weight c))"
    using t(1) u nb(2) by (simp add: res)
  show "b \<in> visited (fold (activate params e now cur) cs ps) \<and>
        count_list (wavefront (fold (activate params e now cur) cs ps)) b
          = Suc (count_list (wavefront ps) b)"
    if "p_threshold params < potential nb + activation params e (potential current) (weight c)"
  proof -
    from fold_activate_untouched[of b pre ps params e now cur] nb(1)
    have "count_list (wavefront ps1) b = count_list (wavefront ps) b"
      by (simp add: ps1_def)
    with t(2)[OF that] u nb(2) show ?thesis by (simp add: res)
  qed
  show "b \<notin> visited (fold (activate params e now cur) cs ps)"
    if "\<not> p_threshold params < potential nb + activation params e (potential current) (weight c)"
    using t(3)[OF that] u nb(2) by (simp add: res)
qed

text \<open>
  A visited node is changed by the loop only when it is taken off the wavefront: its
  potential is multiplied by the decay once for each of its occurrences there.
\<close>

lemma fire_visited:
  assumes "k \<in> visited ps"
  shows "map_option potential (map_of (network (this (fire params e cur ps))) k)
           = map_option (\<lambda>p. if cur = k then p * p_decay params else p)
               (map_option potential (map_of (network (this ps)) k))"
    and "k \<in> visited (fire params e cur ps)"
    and "count_list (wavefront (fire params e cur ps)) k = count_list (wavefront ps) k"
proof -
  show "map_option potential (map_of (network (this (fire params e cur ps))) k)
           = map_option (\<lambda>p. if cur = k then p * p_decay params else p)
               (map_option potential (map_of (network (this ps)) k))"
  proof (cases "map_of (network (this ps)) cur")
    case None
    then show ?thesis by (cases "cur = k") (simp_all add: fire_def option.map_ident)
  next
    case (Some current)
    let ?s2 = "snd (Date_now (modify_node cur (\<lambda>n. n\<lparr>potential := potential n * p_decay params\<rparr>) (this ps)))"
    have m: "map_option potential (map_of (network ?s2) k)
        = map_option (\<lambda>p. if cur = k then p * p_decay params else p)
            (map_option potential (map_of (network (this ps)) k))"
      by (simp add: map_of_modify_node option.map_comp comp_def option.map_ident)
    from fold_activate_untouched[of k _ "ps\<lparr>this := ?s2\<rparr>" params e _ cur] assms
    have "map_of (network (this (fold (activate params e now cur) cs (ps\<lparr>this := ?s2\<rparr>)))) k
        = map_of (network ?s2) k" for now cs
      by simp
    with Some m show ?thesis
      by (simp add: fire_def Let_def case_prod_unfold)
  qed
  have u: "k \<in> visited (fold (activate params e now cur) cs (ps\<lparr>this := t\<rparr>)) \<and>
      count_list (wavefront (fold (activate params e now cur) cs (ps\<lparr>this := t\<rparr>))) k
        = count_list (wavefront ps) k" for now cs t
    using fold_activate_untouched[where k = k and cs = cs and ps = "ps\<lparr>this := t\<rparr>"
        and params = params and e = e and now = now and cur = cur] assms
    by simp
  show "k \<in> visited (fire params e cur ps)"
    using assms u by (simp add: fire_def Let_def case_prod_unfold split: option.splits)
  show "count_list (wavefront (fire params e cur ps)) k = count_list (wavefront ps) k"
    using u by (simp add: fire_def Let_def case_prod_unfold split: option.splits)
qed

lemma propagate_loop_visited:
  "k \<in> visited ps \<Longrightarrow>
   map_option potential (map_of (network (this (propagate_loop params e ps))) k)
     = map_option (\<lambda>p. p * p_decay params ^ count_list (wavefront ps) k)
         (map_option potential (map_of (network (this ps)) k))"
proof (induction params e ps rule: propagate_loop.induct)
  case (1 params e ps)
  show ?case
  proof (cases "wavefront ps")
    case Nil
    then show ?thesis by (simp add: propagate_loop.simps[of params e ps] option.map_ident)
  next
    case (Cons current rest)
    let ?ps1 = "ps\<lparr>wavefront := rest\<rparr>"
    have v: "k \<in> visited ?ps1" using 1(2) by simp
    note f = fire_visited[OF v, of params e current]
    from 1(1)[OF Cons f(2)] f(1,3)
    have "map_option potential (map_of (network (this (propagate_loop params e (fire params e current ?ps1)))) k)
        = map_option (\<lambda>p. p * p_decay params ^ count_list rest k)
            (map_option (\<lambda>p. if current = k then p * p_decay params else p)
               (map_option potential (map_of (network (this ps)) k)))"
      by simp
    then show ?thesis
      by (simp add: propagate_loop.simps[of params e ps] Cons option.map_comp comp_def
            mult.assoc cong: option.map_cong)
  qed
qed

lemma propagateActivation_neighbour:
  assumes ab: "a \<noteq> b"
    and a: "map_of (network s) a = Some na" and b: "map_of (network s) b = Some nb"
    and d: "distinct (map fst (connections na))" and c: "map_of (connections na) b = Some c"
    and ready: "\<not> clock s (ticks s) - lastFired na < refractoryPeriod na"
    and e: "e = (chaosThreshold s > 1.0 \<and> chaosThreshold s < 1.5)"
    and fires: "p_threshold params
        < potential nb + activation params e (potential na * p_decay params) (weight c)"
  shows "map_option potential (map_of (network (snd (propagateActivation [a] params s))) b)
    = Some ((potential nb + activation params e (potential na * p_decay params) (weight c))
              * p_decay params)"
proof -
  define s2 where "s2 = snd (Date_now
      (modify_node a (\<lambda>n. n\<lparr>potential := potential n * p_decay params\<rparr>) s))"
  define ps1 where "ps1 = \<lparr>this = s2, visited = {a}, wavefront = [], activatedPath = [a]\<rparr>"
  define ps2 where "ps2 = fold (activate params e (clock s (ticks s)) a) (connections na) ps1"
  have loop: "propagate_loop params e
      \<lparr>this = s, visited = {a}, wavefront = [a], activatedPath = [a]\<rparr> = propagate_loop params e ps2"
    using a ready
    by (subst propagate_loop.simps)
       (simp add: fire_def Let_def case_prod_unfold ps2_def ps1_def s2_def Date_now_def
          modify_node_def)
  have a1: "map_of (network (this ps1)) a = Some (na\<lparr>potential := potential na * p_decay params\<rparr>)"
    using a by (simp add: ps1_def s2_def map_of_modify_node)
  have b1: "map_of (network (this ps1)) b = Some nb"
    using b ab by (simp add: ps1_def s2_def map_of_modify_node)
  have v1: "a \<in> visited ps1" "b \<notin> visited ps1" "count_list (wavefront ps1) b = 0"
    using ab by (simp_all add: ps1_def)
  note t = fold_activate_target[OF d c v1(2) b1 v1(1) a1, where params = params and e = e
      and now = "clock s (ticks s)", folded ps2_def]
  from t(2) fires v1(3) have v2: "b \<in> visited ps2" "count_list (wavefront ps2) b = Suc 0"
    by simp_all
  from propagate_loop_visited[OF v2(1), of params e] t(1) v2(2)
  have "map_option potential (map_of (network (this (propagate_loop params e ps2))) b)
    = Some ((potential nb + activation params e (potential na * p_decay params) (weight c))
              * p_decay params)"
    by simp
  then have "map_option potential (map_of (network (this (propagate_loop params e
      \<lparr>this = s, visited = {a}, wavefront = [a], activatedPath = [a]\<rparr>))) b)
    = Some ((potential nb + activation params e (potential na * p_decay params) (weight c))
              * p_decay params)"
    by (simp add: loop)
  then show ?thesis
    unfolding propagateActivation_def Let_def e by simp
qed

text \<open>
  A node that stays below the threshold is not visited. When no node but the seed has a
  connection to it, nothing else reaches it in the rest of the loop: the nodes taken off
  the wavefront are visited nodes, other than the seed, and the loop changes no connection.
\<close>

lemma wavefront_visited_activate:
  "set (wavefront ps) \<subseteq> visited ps \<Longrightarrow>
   set (wavefront (activate params e now cur c ps)) \<subseteq> visited (activate params e now cur c ps)"
  by (cases c) (auto simp: activate_def Let_def split: option.splits)

lemma wavefront_visited_fold_activate:
  "set (wavefront ps) \<subseteq> visited ps \<Longrightarrow>
   set (wavefront (fold (activate params e now cur) cs ps))
     \<subseteq> visited (fold (activate params e now cur) cs ps)"
  by (induction cs arbitrary: ps) (simp_all add: wavefront_visited_activate)

lemma wavefront_visited_fire:
  assumes "set (wavefront ps) \<subseteq> visited ps"
  shows "set (wavefront (fire params e cur ps)) \<subseteq> visited (fire params e cur ps)"
proof -
  from assms have "set (wavefront (ps\<lparr>this := t\<rparr>)) \<subseteq> visited (ps\<lparr>this := t\<rparr>)" for t by simp
  from wavefront_visited_fold_activate[OF this] assms show ?thesis
    by (simp add: fire_def Let_def case_prod_unfold split: option.splits)
qed

lemma frame_same:
  assumes "frame s s'" and "map_of (network s') k = Some n'"
  shows "\<exists>n. (k, n) \<in> set (network s) \<and> same_but_activation n n'"
proof -
  from assms(1) have len: "length (network s) = length (network s')"
    and nth: "\<And>i. i < length (network s) \<Longrightarrow>
      (\<lambda>(k, n) (k', n'). k' = k \<and> same_but_activation n n') (network s ! i) (network s' ! i)"
    by (simp_all add: frame_def list_all2_conv_all_nth)
  from assms(2) have "(k, n') \<in> set (network s')" by (rule map_of_SomeD)
  then obtain i where i: "i < length (network s')" "network s' ! i = (k, n')"
    by (auto simp: in_set_conv_nth)
  obtain k0 n0 where x: "network s ! i = (k0, n0)" by (cases "network s ! i")
  from nth[of i] i len x have "k0 = k" "same_but_activation n0 n'"
    by simp_all
  moreover have "(k0, n0) \<in> set (network s)"
    using i(1) len x by (metis nth_mem)
  ultimately show ?thesis by blast
qed

lemma fire_unreached:
  assumes "cur \<noteq> b" and "b \<notin> visited ps"
    and "\<And>n. map_of (network (this ps)) cur = Some n \<Longrightarrow> b \<notin> fst ` set (connections n)"
  shows "map_of (network (this (fire params e cur ps))) b = map_of (network (this ps)) b"
    and "b \<notin> visited (fire params e cur ps)"
proof -
  have "map_of (network (this (fire params e cur ps))) b = map_of (network (this ps)) b
      \<and> b \<notin> visited (fire params e cur ps)"
  proof (cases "map_of (network (this ps)) cur")
    case None
    with assms(2) show ?thesis by (simp add: fire_def)
  next
    case (Some current)
    let ?s2 = "snd (Date_now (modify_node cur (\<lambda>n. n\<lparr>potential := potential n * p_decay params\<rparr>) (this ps)))"
    have m: "map_of (network ?s2) b = map_of (network (this ps)) b"
      using assms(1) by (simp add: map_of_modify_node)
    from assms(3)[OF Some] have "b \<notin> fst ` set (connections current)" .
    then have "b \<notin> fst ` set (connections current) \<or> b \<in> visited (ps\<lparr>this := ?s2\<rparr>)" by simp
    from fold_activate_untouched[OF this, of params e _ cur]
    have "map_of (network (this (fold (activate params e now cur) (connections current)
          (ps\<lparr>this := ?s2\<rparr>)))) b = map_of (network ?s2) b
      \<and> b \<notin> visited (fold (activate params e now cur) (connections current) (ps\<lparr>this := ?s2\<rparr>))"
      for now
      using assms(2) by simp
    with Some m assms(2) show ?thesis
      by (simp add: fire_def Let_def case_prod_unfold)
  qed
  then show "map_of (network (this (fire params e cur ps))) b = map_of (network (this ps)) b"
    and "b \<notin> visited (fire params e cur ps)" by simp_all
qed

lemma propagate_loop_unreached:
  assumes only: "\<forall>(k, n)\<in>set (network s). k \<noteq> a \<longrightarrow> map_of (connections n) b = None"
  shows "frame s (this ps) \<Longrightarrow> b \<notin> visited ps \<Longrightarrow> set (wavefront ps) \<subseteq> visited ps \<Longrightarrow>
    a \<in> visited ps \<Longrightarrow> a \<notin> set (wavefront ps) \<Longrightarrow>
    map_of (network (this (propagate_loop params e ps))) b = map_of (network (this ps)) b \<and>
    b \<notin> visited (propagate_loop params e ps)"
proof (induction params e ps rule: propagate_loop.induct)
  case (1 params e ps)
  show ?case
  proof (cases "wavefront ps")
    case Nil
    with 1(3) show ?thesis by (simp add: propagate_loop.simps[of params e ps])
  next
    case (Cons current rest)
    let ?ps1 = "ps\<lparr>wavefront := rest\<rparr>"
    let ?ps2 = "fire params e current ?ps1"
    from 1(4,6) Cons have cur: "current \<in> visited ps" "current \<noteq> a" by auto
    with 1(3) have nb: "current \<noteq> b" by auto
    have conn: "b \<notin> fst ` set (connections n)" if "map_of (network (this ?ps1)) current = Some n" for n
    proof -
      from that have "map_of (network (this ps)) current = Some n" by simp
      from frame_same[OF 1(2) this] obtain n0 where
        "(current, n0) \<in> set (network s)" "same_but_activation n0 n" by blast
      then have n0: "(current, n0) \<in> set (network s)" "connections n = connections n0"
        by (simp_all add: same_but_activation_def)
      with only cur(2) have "map_of (connections n0) b = None" by auto
      with n0(2) show ?thesis by (simp add: map_of_eq_None_iff)
    qed
    have nv: "b \<notin> visited ?ps1" using 1(3) by simp
    note f = fire_unreached[OF nb nv conn, of params e]
    have "frame (this ps) (this ?ps2)"
      using frame_fire[of ?ps1 params e current] by simp
    with 1(2) have fr: "frame s (this ?ps2)" by (rule frame_trans)
    have wv: "set (wavefront ?ps2) \<subseteq> visited ?ps2"
      using 1(4) Cons by (intro wavefront_visited_fire) auto
    have av: "a \<in> visited ?ps1" using 1(5) by simp
    have aw: "a \<notin> set (wavefront ?ps2)"
    proof -
      from 1(6) Cons have "count_list rest a = 0" by (simp add: count_list_0_iff)
      with fire_visited(3)[OF av, of params e current]
      show ?thesis by (simp add: count_list_0_iff)
    qed
    from 1(1)[OF Cons fr f(2) wv fire_visited(2)[OF av] aw] f(1)
    show ?thesis by (simp add: propagate_loop.simps[of params e ps] Cons)
  qed
qed

text \<open>
  The other condition: a node that fired at the first reading of the clock is within its
  refractory period when the loop takes it off the wavefront, and spreads nothing.
\<close>

lemma clock_activate [simp]:
  "clock (this (activate params e now cur c ps)) = clock (this ps)"
  "ticks (this (activate params e now cur c ps)) = ticks (this ps)"
  by (cases c; simp add: activate_def Let_def updateCoherenceMetrics_def modify_node_def
        split: option.splits)+

lemma clock_fold_activate [simp]:
  "clock (this (fold (activate params e now cur) cs ps)) = clock (this ps)"
  "ticks (this (fold (activate params e now cur) cs ps)) = ticks (this ps)"
  by (induction cs arbitrary: ps) simp_all

lemma fired_at_activate:
  assumes "\<forall>k\<in>set (wavefront ps). \<forall>n. map_of (network (this ps)) k = Some n \<longrightarrow> lastFired n = now"
  shows "\<forall>k\<in>set (wavefront (activate params e now cur c ps)).
     \<forall>n. map_of (network (this (activate params e now cur c ps))) k = Some n \<longrightarrow> lastFired n = now"
  using assms
  by (cases c) (auto simp: activate_def Let_def map_of_modify_node split: option.splits if_splits)

lemma fired_at_fold_activate:
  assumes "\<forall>k\<in>set (wavefront ps). \<forall>n. map_of (network (this ps)) k = Some n \<longrightarrow> lastFired n = now"
  shows "\<forall>k\<in>set (wavefront (fold (activate params e now cur) cs ps)).
     \<forall>n. map_of (network (this (fold (activate params e now cur) cs ps))) k = Some n \<longrightarrow> lastFired n = now"
  using assms
proof (induction cs arbitrary: ps)
  case Nil
  then show ?case by simp
next
  case (Cons c cs)
  from Cons.IH[OF fired_at_activate[OF Cons.prems]] show ?case by simp
qed

lemma fire_resting:
  assumes "map_of (network (this ps)) cur = Some n"
    and "clock (this ps) (ticks (this ps)) - lastFired n < refractoryPeriod n"
  shows "fire params e cur ps =
    ps\<lparr>this := snd (Date_now (modify_node cur (\<lambda>n. n\<lparr>potential := potential n * p_decay params\<rparr>) (this ps)))\<rparr>"
  using assms by (simp add: fire_def Let_def case_prod_unfold Date_now_def modify_node_def)

lemma propagate_loop_resting:
  assumes fast: "\<forall>j\<in>{1..length (network s)}. \<forall>(k, n)\<in>set (network s).
      clock s (ticks s + j) - clock s (ticks s) < refractoryPeriod n"
  shows "frame s (this ps) \<Longrightarrow> clock (this ps) = clock s \<Longrightarrow> ticks s < ticks (this ps) \<Longrightarrow>
    ticks (this ps) + length (wavefront ps) \<le> ticks s + Suc (length (network s)) \<Longrightarrow>
    (\<forall>k\<in>set (wavefront ps). \<forall>n. map_of (network (this ps)) k = Some n \<longrightarrow>
       lastFired n = clock s (ticks s)) \<Longrightarrow>
    b \<notin> set (wavefront ps) \<Longrightarrow> b \<notin> visited ps \<Longrightarrow>
    map_of (network (this (propagate_loop params e ps))) b = map_of (network (this ps)) b \<and>
    b \<notin> visited (propagate_loop params e ps)"
proof (induction params e ps rule: propagate_loop.induct)
  case (1 params e ps)
  show ?case
  proof (cases "wavefront ps")
    case Nil
    with 1(8) show ?thesis by (simp add: propagate_loop.simps[of params e ps])
  next
    case (Cons current rest)
    let ?ps1 = "ps\<lparr>wavefront := rest\<rparr>"
    from 1(7) Cons have nb: "current \<noteq> b" "b \<notin> set rest" by auto
    show ?thesis
    proof (cases "map_of (network (this ps)) current")
      case None
      then have f: "fire params e current ?ps1 = ?ps1" by (simp add: fire_def)
      have "map_of (network (this (propagate_loop params e ?ps1))) b = map_of (network (this ?ps1)) b \<and>
          b \<notin> visited (propagate_loop params e ?ps1)"
        using 1(2-6,8) Cons nb(2) by (intro 1(1)[OF Cons, unfolded f]) simp_all
      then show ?thesis by (simp add: propagate_loop.simps[of params e ps] Cons f)
    next
      case (Some n)
      define j where "j = ticks (this ps) - ticks s"
      have j: "j \<in> {1..length (network s)}" "ticks (this ps) = ticks s + j"
        using 1(4,5) Cons unfolding j_def by auto
      from frame_same[OF 1(2) Some] obtain n0 where
        n0: "(current, n0) \<in> set (network s)" "same_but_activation n0 n" by blast
      from 1(6) Cons Some have lf: "lastFired n = clock s (ticks s)" by simp
      from fast j(1) n0(1) have "clock s (ticks s + j) - clock s (ticks s) < refractoryPeriod n0"
        by blast
      then have resting: "clock (this ?ps1) (ticks (this ?ps1)) - lastFired n < refractoryPeriod n"
        using n0(2) lf j(2) 1(3) by (simp add: same_but_activation_def)
      let ?s1 = "modify_node current (\<lambda>n. n\<lparr>potential := potential n * p_decay params\<rparr>) (this ps)"
      let ?s2 = "snd (Date_now ?s1)"
      let ?ps2 = "?ps1\<lparr>this := ?s2\<rparr>"
      have f: "fire params e current ?ps1 = ?ps2"
        using fire_resting[of ?ps1 current n params e] Some resting by simp
      have "frame (this ps) ?s1"
        by (rule frame_modify_node) (simp add: same_but_activation_def)
      then have "frame (this ps) ?s2" by (rule frame_network_cong[rotated]) simp
      with 1(2) have fr: "frame s (this ?ps2)" by (simp add: frame_trans)
      have env: "clock (this ?ps2) = clock s" "ticks (this ?ps2) = Suc (ticks (this ps))"
        using 1(3) by (simp_all add: Date_now_def modify_node_def)
      have fired: "\<forall>k\<in>set (wavefront ?ps2). \<forall>n. map_of (network (this ?ps2)) k = Some n \<longrightarrow>
          lastFired n = clock s (ticks s)"
        using 1(6) Cons by (auto simp: map_of_modify_node split: if_splits)
      have b: "map_of (network (this ?ps2)) b = map_of (network (this ps)) b"
        using nb(1) by (simp add: map_of_modify_node)
      have "map_of (network (this (propagate_loop params e ?ps2))) b = map_of (network (this ?ps2)) b \<and>
          b \<notin> visited (propagate_loop params e ?ps2)"
        using 1(4,5,8) Cons nb(2) fr env fired
        by (intro 1(1)[OF Cons, unfolded f]) simp_all
      then show ?thesis
        using nb(1) by (simp add: propagate_loop.simps[of params e ps] Cons f map_of_modify_node)
    qed
  qed
qed

lemma wavefront_bound:
  "length (wavefront (fold (activate params e now cur) cs ps))
     \<le> length (wavefront ps) + length (network (this ps))"
proof -
  have "unvisited ps \<le> length (network (this ps))"
    unfolding unvisited_def keys_def
    by (rule order_trans[OF card_mono[of "fst ` set (network (this ps))"]])
       (auto intro: order_trans[OF card_image_le card_length])
  with fold_activate_measure[of params e now cur cs ps] show ?thesis by simp
qed

lemma propagateActivation_quiet_neighbour:
  assumes ab: "a \<noteq> b"
    and a: "map_of (network s) a = Some na" and b: "map_of (network s) b = Some nb"
    and d: "distinct (map fst (connections na))" and c: "map_of (connections na) b = Some c"
    and ready: "\<not> clock s (ticks s) - lastFired na < refractoryPeriod na"
    and e: "e = (chaosThreshold s > 1.0 \<and> chaosThreshold s < 1.5)"
    and quiet: "\<not> p_threshold params
        < potential nb + activation params e (potential na * p_decay params) (weight c)"
    and alone: "sole_source s a b \<or> resting s"
  shows "map_option potential (map_of (network (snd (propagateActivation [a] params s))) b)
    = Some (potential nb + activation params e (potential na * p_decay params) (weight c))"
    and "b \<notin> set (fst (propagateActivation [a] params s))"
proof -
  define s2 where "s2 = snd (Date_now
      (modify_node a (\<lambda>n. n\<lparr>potential := potential n * p_decay params\<rparr>) s))"
  define ps0 where "ps0 = \<lparr>this = s, visited = {a}, wavefront = [a], activatedPath = [a]\<rparr>"
  define ps1 where "ps1 = \<lparr>this = s2, visited = {a}, wavefront = [], activatedPath = [a]\<rparr>"
  define ps2 where "ps2 = fold (activate params e (clock s (ticks s)) a) (connections na) ps1"
  have loop: "propagate_loop params e ps0 = propagate_loop params e ps2"
    using a ready unfolding ps0_def
    by (subst propagate_loop.simps)
       (simp add: fire_def Let_def case_prod_unfold ps2_def ps1_def s2_def Date_now_def
          modify_node_def)
  have a1: "map_of (network (this ps1)) a = Some (na\<lparr>potential := potential na * p_decay params\<rparr>)"
    using a by (simp add: ps1_def s2_def map_of_modify_node)
  have b1: "map_of (network (this ps1)) b = Some nb"
    using b ab by (simp add: ps1_def s2_def map_of_modify_node)
  have v1: "a \<in> visited ps1" "b \<notin> visited ps1" "count_list (wavefront ps1) a = 0"
    using ab by (simp_all add: ps1_def)
  note t = fold_activate_target[OF d c v1(2) b1 v1(1) a1, where params = params and e = e
      and now = "clock s (ticks s)", folded ps2_def]
  from t(3) quiet have nv: "b \<notin> visited ps2" by simp
  have "frame s (modify_node a (\<lambda>n. n\<lparr>potential := potential n * p_decay params\<rparr>) s)"
    by (rule frame_modify_node) (simp add: same_but_activation_def)
  then have "frame s s2" unfolding s2_def by (rule frame_network_cong[rotated]) simp
  moreover have "frame s2 (this ps2)"
    using frame_fold_activate[of ps1 params e "clock s (ticks s)" a "connections na"]
    by (simp add: ps2_def ps1_def)
  ultimately have fr: "frame s (this ps2)" by (rule frame_trans)
  have wv: "set (wavefront ps2) \<subseteq> visited ps2"
    unfolding ps2_def by (rule wavefront_visited_fold_activate) (simp add: ps1_def)
  have u: "map_of (network (this (propagate_loop params e ps2))) b = map_of (network (this ps2)) b \<and>
      b \<notin> visited (propagate_loop params e ps2)"
    using alone
  proof
    assume "sole_source s a b"
    then have only: "\<forall>(k, n)\<in>set (network s). k \<noteq> a \<longrightarrow> map_of (connections n) b = None"
      by (simp add: sole_source_def)
    from fold_activate_untouched[of a "connections na" ps1 params e "clock s (ticks s)" a] v1
    have av: "a \<in> visited ps2" "count_list (wavefront ps2) a = 0"
      by (simp_all add: ps2_def)
    then have aw: "a \<notin> set (wavefront ps2)" by (simp add: count_list_0_iff)
    show ?thesis by (rule propagate_loop_unreached[OF only fr nv wv av(1) aw])
  next
    assume "resting s"
    then have fast: "\<forall>j\<in>{1..length (network s)}. \<forall>(k, n)\<in>set (network s).
        clock s (ticks s + j) - clock s (ticks s) < refractoryPeriod n"
      by (simp add: resting_def)
    have env: "clock (this ps2) = clock s" "ticks (this ps2) = Suc (ticks s)"
      by (simp_all add: ps2_def ps1_def s2_def Date_now_def modify_node_def)
    have "length (network s2) = length (network s)"
      by (simp add: s2_def modify_node_def)
    with wavefront_bound[of params e "clock s (ticks s)" a "connections na" ps1]
    have len: "length (wavefront ps2) \<le> length (network s)"
      by (simp add: ps2_def ps1_def)
    have fired: "\<forall>k\<in>set (wavefront ps2). \<forall>n. map_of (network (this ps2)) k = Some n \<longrightarrow>
        lastFired n = clock s (ticks s)"
      unfolding ps2_def by (rule fired_at_fold_activate) (simp add: ps1_def)
    from wv nv have bw: "b \<notin> set (wavefront ps2)" by auto
    show ?thesis
      using env len by (intro propagate_loop_resting[OF fast fr _ _ _ fired bw nv]) simp_all
  qed
  from u t(1) have "map_option potential (map_of (network (this (propagate_loop params e ps0))) b)
    = Some (potential nb + activation params e (potential na * p_decay params) (weight c))"
    by (simp add: loop)
  then show "map_option potential (map_of (network (snd (propagateActivation [a] params s))) b)
    = Some (potential nb + activation params e (potential na * p_decay params) (weight c))"
    unfolding propagateActivation_def Let_def e ps0_def by simp
  have "path_visited ps0" by (simp add: path_visited_def ps0_def)
  from path_visited_propagate_loop[OF this, of params e] u
  have "b \<notin> set (activatedPath (propagate_loop params e ps0))"
    by (auto simp: path_visited_def loop)
  then show "b \<notin> set (fst (propagateActivation [a] params s))"
    unfolding propagateActivation_def Let_def e ps0_def by simp
qed

lemma Math_tanh_of_tanh: "\<bar>k\<bar> < 20 \<Longrightarrow> Math_tanh (k * tanh y) = tanh (k * tanh y)"
proof (rule Math_tanh_small)
  assume k: "\<bar>k\<bar> < 20"
  have "\<bar>tanh y\<bar> \<le> 1"
    using tanh_real_lt_1[of y] tanh_real_gt_neg1[of y] by (simp add: abs_le_iff)
  then have "\<bar>k\<bar> * \<bar>tanh y\<bar> \<le> \<bar>k\<bar>" by (simp add: mult_left_le)
  with k show "\<bar>k * tanh y\<bar> < 20" by (simp add: abs_mult)
qed

lemma learned_network:

  "network learned =
     [(''a'', \<lparr>potential = 1,
         connections = [(''b'', \<lparr>weight = tanh (1/5), c_lastFired = 1001, plasticityRate = 1/10\<rparr>)],
         decay = 9/10, threshold = 1/2, refractoryPeriod = 100, lastFired = 0,
         embedding = Some [1, 0], semanticContent = Some ''water''\<rparr>),
      (''b'', \<lparr>potential = 1,
         connections = [(''a'', \<lparr>weight = tanh (17/100), c_lastFired = 1002, plasticityRate = 1/10\<rparr>)],
         decay = 9/10, threshold = 1/2, refractoryPeriod = 100, lastFired = 0,
         embedding = Some [0, 1], semanticContent = Some ''fire''\<rparr>)]"
  by (simp add: learned_def unconnected_def createNode_def new_instance_def strengthenPath_def
        strengthen_pair_def ensure_conn_def get_conn_def set_conn_def modify_node_def
        Date_now_def weaken_unused_def weaken_conn_def Let_def Math_tanh_def)

lemma learned_environment:
  "clock learned (ticks learned) = 1003" "chaosThreshold learned = 12/10"
  by (simp_all add: learned_def unconnected_def createNode_def new_instance_def strengthenPath_def
        strengthen_pair_def ensure_conn_def get_conn_def set_conn_def modify_node_def
        Date_now_def weaken_unused_def weaken_conn_def Let_def)

lemma broad_bound_arith:
  fixes t1 t2 :: real
  assumes "0 \<le> t1" "t1 \<le> 1/5" "t2 \<le> 18/25 * t1"
  shows "9/10 * (1 + (18/25 * t1 + t2)) - 1 < 1 * t1 * (8/10)"
  using assms by (simp add: algebra_simps)

lemma learned_potential_b:
  "map_option potential (map_of (network (snd (propagateActivation [''a''] broad learned))) ''b'')
     = Some (9/10 * (1 + (18/25 * tanh (1/5) + tanh (18/25 * tanh (1/5)))))"
proof -
  let ?na = "\<lparr>potential = 1,
         connections = [(''b'', \<lparr>weight = tanh (1/5), c_lastFired = 1001, plasticityRate = 1/10\<rparr>)],
         decay = 9/10, threshold = 1/2, refractoryPeriod = 100, lastFired = 0,
         embedding = Some [1, 0], semanticContent = Some ''water''\<rparr>"
  let ?nb = "\<lparr>potential = 1,
         connections = [(''a'', \<lparr>weight = tanh (17/100), c_lastFired = 1002, plasticityRate = 1/10\<rparr>)],
         decay = 9/10, threshold = 1/2, refractoryPeriod = 100, lastFired = 0,
         embedding = Some [0, 1], semanticContent = Some ''fire''\<rparr>"
  let ?c = "\<lparr>weight = tanh (1/5), c_lastFired = 1001, plasticityRate = 1/10\<rparr>"
  have ab: "''a'' \<noteq> ''b''" by simp
  have a: "map_of (network learned) ''a'' = Some ?na" by (simp add: learned_network)
  have b: "map_of (network learned) ''b'' = Some ?nb" by (simp add: learned_network)
  have d: "distinct (map fst (connections ?na))" by simp
  have c: "map_of (connections ?na) ''b'' = Some ?c" by simp
  have ready: "\<not> clock learned (ticks learned) - lastFired ?na < refractoryPeriod ?na"
    by (simp add: learned_environment)
  have e: "True = (chaosThreshold learned > 1.0 \<and> chaosThreshold learned < 1.5)"
    by (simp add: learned_environment)
  have small: "Math_tanh (18/25 * tanh (1/5 :: real)) = tanh (18/25 * tanh (1/5))"
    by (rule Math_tanh_of_tanh) simp
  have act: "activation broad True (potential ?na * p_decay broad) (weight ?c)
      = 18/25 * tanh (1/5) + tanh (18/25 * tanh (1/5))"
    using small by (simp add: broad_def activation_def alpha_def)
  have w: "0 \<le> tanh (18/25 * tanh (1/5 :: real))" "0 \<le> tanh (1/5 :: real)" by simp_all
  then have "(3/10 :: real) < 1 + (18/25 * tanh (1/5) + tanh (18/25 * tanh (1/5)))"
    by linarith
  then have fires: "p_threshold broad
      < potential ?nb + activation broad True (potential ?na * p_decay broad) (weight ?c)"
    unfolding act by (simp add: broad_def)
  have eq: "(potential ?nb + activation broad True (potential ?na * p_decay broad) (weight ?c))
      * p_decay broad = 9/10 * (1 + (18/25 * tanh (1/5) + tanh (18/25 * tanh (1/5))))"
    unfolding act by (simp add: broad_def)
  from propagateActivation_neighbour[OF ab a b d c ready e fires]
  show ?thesis by (simp only: eq)
qed

text \<open>
  In the network \<^const>\<open>relay\<close> the seed \<open>a\<close> fires \<open>c\<close>, which has a connection to \<open>b\<close>, and
  leaves \<open>b\<close> below the threshold.
\<close>

lemma relay_path: "fst (propagateActivation [''a''] broad relay) = [''a'', ''c'']"
proof -
  have t: "tanh (9/100 :: real) \<le> 9/100"
    by (rule tanh_le_self) simp
  have "0 \<le> tanh (9/50 :: real)" by simp
  then have pos: "(0 :: real) < 44/5 + tanh (9/50) * 10" by linarith
  have m: "Math_tanh (9/100) = tanh (9/100)" "Math_tanh (9/50) = tanh (9/50)"
    by (simp_all add: Math_tanh_def)
  show ?thesis
    using t pos
    by (simp add: propagateActivation_def relay_def new_instance_def propagate_loop.simps
          fire_def activate_def Date_now_def modify_node_def broad_def alpha_def m Let_def
          updateCoherenceMetrics_def calculateCoherence_def get_conn_def)
qed

text \<open>
  After \<^verbatim>\<open>strengthenPath([a, b])\<close> on two new nodes the weight from \<open>a\<close> to \<open>b\<close> is
  \<open>tanh (1/5)\<close> and both potentials are \<open>1\<close>. The propagation from \<open>a\<close> in the broad regime
  raises the potential of \<open>b\<close> by less than \<open>a.potential * weight * 0.8\<close>: \<open>b\<close> receives
  the activation of the decayed \<open>a\<close>, fires, and then decays itself.
\<close>

theorem propagation_lower_bound_counterexample:
  "map_option potential (map_of (network learned) ''a'') = Some 1 \<and>
   map_option potential (map_of (network learned) ''b'') = Some 1 \<and>
   map_option lastFired (map_of (network learned) ''a'') = Some 0 \<and>
   map_option refractoryPeriod (map_of (network learned) ''a'') = Some 100 \<and>
   clock learned (ticks learned) = 1003 \<and>
   map_option weight (get_conn learned ''a'' ''b'') = Some (tanh (1/5)) \<and>
   map_option potential (map_of (network (snd (propagateActivation [''a''] broad learned))) ''b'')
     = Some (9/10 * (1 + (18/25 * tanh (1/5) + tanh (18/25 * tanh (1/5))))) \<and>
   9/10 * (1 + (18/25 * tanh (1/5) + tanh (18/25 * tanh (1/5)))) - 1 < 1 * tanh (1/5) * (8/10 :: real)"
proof -
  have w0: "0 \<le> tanh (1/5 :: real)" by simp
  have w1: "tanh (1/5 :: real) \<le> 1/5" by (rule tanh_le_self) simp
  have w2: "tanh (18/25 * tanh (1/5 :: real)) \<le> 18/25 * tanh (1/5)"
    by (rule tanh_le_self) simp
  have less: "9/10 * (1 + (18/25 * tanh (1/5) + tanh (18/25 * tanh (1/5)))) - 1
      < 1 * tanh (1/5) * (8/10 :: real)"
    by (rule broad_bound_arith[OF w0 w1 w2])
  have st: "map_option potential (map_of (network learned) ''a'') = Some 1"
    "map_option potential (map_of (network learned) ''b'') = Some 1"
    "map_option lastFired (map_of (network learned) ''a'') = Some 0"
    "map_option refractoryPeriod (map_of (network learned) ''a'') = Some 100"
    "map_option weight (get_conn learned ''a'' ''b'') = Some (tanh (1/5))"
    by (simp_all add: learned_network get_conn_def)
  from st learned_environment(1) learned_potential_b less show ?thesis by blast
qed

text \<open>
  C4. Let \<open>a\<close> have a connection of weight \<open>w\<close> to another node \<open>b\<close>, and let \<open>a\<close> be out of
  its refractory period. In \<^verbatim>\<open>propagateActivation\<close> seeded at \<open>a\<close> with the broad regime,
  \<open>a\<close> decays first, and \<open>b\<close> receives \<open>x + Math.tanh x\<close> in the edge-of-chaos regime (\<open>x\<close>
  otherwise), for \<open>x = (a.potential * 0.9) * w * 0.8\<close>. When this takes the potential of
  \<open>b\<close> above the threshold \<open>0.3\<close>, \<open>b\<close> fires and decays once in its turn: its potential
  after the call is \<open>0.9\<close> times the sum of its potential before and what it received.
  When it does not, \<open>b\<close> does not fire in the turn of \<open>a\<close>; and if no node but \<open>a\<close> has a
  connection to \<open>b\<close>, or if the nodes that fire in the call are at rest when the loop comes
  to them, then \<open>b\<close> is not on the path returned, and its potential after the call is the
  sum of its potential before and what it received, without decay.
\<close>

theorem propagateActivation_broad_neighbour:
  assumes "a \<noteq> b"
    and "map_of (network s) a = Some na" and "map_of (network s) b = Some nb"
    and "distinct (map fst (connections na))" and "map_of (connections na) b = Some c"
    and "\<not> clock s (ticks s) - lastFired na < refractoryPeriod na"
    and "x = potential na * 0.9 * weight c * 0.8"
    and "received = x + (if chaosThreshold s > 1.0 \<and> chaosThreshold s < 1.5 then Math_tanh x else 0)"
  shows "(0.3 < potential nb + received \<longrightarrow>
            map_option potential (map_of (network (snd (propagateActivation [a] broad s))) b)
              = Some (0.9 * (potential nb + received))) \<and>
         (\<not> 0.3 < potential nb + received \<and> (sole_source s a b \<or> resting s) \<longrightarrow>
            map_option potential (map_of (network (snd (propagateActivation [a] broad s))) b)
              = Some (potential nb + received) \<and>
            b \<notin> set (fst (propagateActivation [a] broad s)))"
proof -
  define e where "e = (chaosThreshold s > 1.0 \<and> chaosThreshold s < 1.5)"
  have r: "activation broad e (potential na * p_decay broad) (weight c) = received"
    unfolding assms(8) assms(7) activation_def e_def by (simp add: broad_def alpha_def)
  have fired: "map_option potential (map_of (network (snd (propagateActivation [a] broad s))) b)
        = Some (0.9 * (potential nb + received))"
    if "0.3 < potential nb + received"
  proof -
    from that have fires: "p_threshold broad
        < potential nb + activation broad e (potential na * p_decay broad) (weight c)"
      by (simp add: r) (simp add: broad_def)
    have eq: "(potential nb + activation broad e (potential na * p_decay broad) (weight c))
        * p_decay broad = 0.9 * (potential nb + received)"
      by (simp add: r) (simp add: broad_def)
    from propagateActivation_neighbour[OF assms(1-6) e_def fires]
    show ?thesis by (simp only: eq)
  qed
  have rested: "map_option potential (map_of (network (snd (propagateActivation [a] broad s))) b)
        = Some (potential nb + received) \<and>
      b \<notin> set (fst (propagateActivation [a] broad s))"
    if "\<not> 0.3 < potential nb + received" and only: "sole_source s a b \<or> resting s"
  proof -
    from that(1) have quiet: "\<not> p_threshold broad
        < potential nb + activation broad e (potential na * p_decay broad) (weight c)"
      by (simp add: r) (simp add: broad_def)
    note q = propagateActivation_quiet_neighbour[OF assms(1-6) e_def quiet only]
    from q(1) have "map_option potential (map_of (network (snd (propagateActivation [a] broad s))) b)
        = Some (potential nb + received)"
      by (simp only: r)
    with q(2) show ?thesis by simp
  qed
  from fired rested show ?thesis by blast
qed

theorem propagateActivation_broad_neighbour_witness:
  "map_option potential (map_of (network learned) ''b'') = Some 1 \<and>
   map_option weight (get_conn learned ''a'' ''b'') = Some (tanh (1/5)) \<and>
   (0.3 :: real) < 1 + (18/25 * tanh (1/5) + tanh (18/25 * tanh (1/5))) \<and>
   map_option potential (map_of (network (snd (propagateActivation [''a''] broad learned))) ''b'')
     = Some (0.9 * (1 + (18/25 * tanh (1/5) + tanh (18/25 * tanh (1/5))))) \<and>
   map_option potential (map_of (network faint) ''a'') = Some (1/2) \<and>
   map_option potential (map_of (network faint) ''b'') = Some 0 \<and>
   map_option weight (get_conn faint ''a'' ''b'') = Some (1/4) \<and>
   map (\<lambda>(k, n). (k, map fst (connections n))) (network faint) = [(''a'', [''b'']), (''b'', [''a''])] \<and>
   sole_source faint ''a'' ''b'' \<and>
   \<not> (0.3 :: real) < 0 + (9/100 + tanh (9/100)) \<and>
   map_option potential (map_of (network (snd (propagateActivation [''a''] broad faint))) ''b'')
     = Some (0 + (9/100 + tanh (9/100))) \<and>
   ''b'' \<notin> set (fst (propagateActivation [''a''] broad faint)) \<and>
   map_option potential (map_of (network relay) ''a'') = Some (1/2) \<and>
   map_option potential (map_of (network relay) ''b'') = Some 0 \<and>
   map_option weight (get_conn relay ''a'' ''b'') = Some (1/4) \<and>
   map_option weight (get_conn relay ''c'' ''b'') = Some (1/2) \<and>
   \<not> sole_source relay ''a'' ''b'' \<and> resting relay \<and>
   fst (propagateActivation [''a''] broad relay) = [''a'', ''c''] \<and>
   map_option potential (map_of (network (snd (propagateActivation [''a''] broad relay))) ''b'')
     = Some (0 + (9/100 + tanh (9/100))) \<and>
   ''b'' \<notin> set (fst (propagateActivation [''a''] broad relay))"
proof -
  let ?na = "\<lparr>potential = 1,
         connections = [(''b'', \<lparr>weight = tanh (1/5), c_lastFired = 1001, plasticityRate = 1/10\<rparr>)],
         decay = 9/10, threshold = 1/2, refractoryPeriod = 100, lastFired = 0,
         embedding = Some [1, 0], semanticContent = Some ''water''\<rparr>"
  let ?nb = "\<lparr>potential = 1,
         connections = [(''a'', \<lparr>weight = tanh (17/100), c_lastFired = 1002, plasticityRate = 1/10\<rparr>)],
         decay = 9/10, threshold = 1/2, refractoryPeriod = 100, lastFired = 0,
         embedding = Some [0, 1], semanticContent = Some ''fire''\<rparr>"
  let ?c = "\<lparr>weight = tanh (1/5), c_lastFired = 1001, plasticityRate = 1/10\<rparr>"
  let ?x = "18/25 * tanh (1/5 :: real)"
  have ab: "''a'' \<noteq> ''b''" by simp
  have a: "map_of (network learned) ''a'' = Some ?na" by (simp add: learned_network)
  have b: "map_of (network learned) ''b'' = Some ?nb" by (simp add: learned_network)
  have d: "distinct (map fst (connections ?na))" by simp
  have c: "map_of (connections ?na) ''b'' = Some ?c" by simp
  have ready: "\<not> clock learned (ticks learned) - lastFired ?na < refractoryPeriod ?na"
    by (simp add: learned_environment)
  have x: "?x = potential ?na * 0.9 * weight ?c * 0.8" by simp
  have small: "Math_tanh ?x = tanh ?x"
    by (rule Math_tanh_of_tanh) simp
  have r: "?x + tanh ?x
      = ?x + (if chaosThreshold learned > 1.0 \<and> chaosThreshold learned < 1.5 then Math_tanh ?x else 0)"
    by (simp only: small) (simp add: learned_environment)
  have w: "0 \<le> tanh ?x" "0 \<le> tanh (1/5 :: real)" by simp_all
  then have f: "(0.3 :: real) < 1 + (?x + tanh ?x)" by linarith
  then have fires: "0.3 < potential ?nb + (?x + tanh ?x)" by simp
  from propagateActivation_broad_neighbour[OF ab a b d c ready x r] fires
  have 1: "map_option potential (map_of (network (snd (propagateActivation [''a''] broad learned))) ''b'')
     = Some (0.9 * (1 + (?x + tanh ?x)))" by simp
  have 2: "map_option potential (map_of (network learned) ''b'') = Some 1"
    "map_option weight (get_conn learned ''a'' ''b'') = Some (tanh (1/5))"
    by (simp_all add: learned_network get_conn_def)
  let ?ma = "\<lparr>potential = 1/2, connections = [(''b'', \<lparr>weight = 1/4, c_lastFired = 0, plasticityRate = 1/10\<rparr>)],
                    decay = 9/10, threshold = 1/2, refractoryPeriod = 100, lastFired = 0,
                    embedding = Some [1, 0], semanticContent = Some ''water''\<rparr>"
  let ?mb = "\<lparr>potential = 0, connections = [(''a'', \<lparr>weight = - 1/4, c_lastFired = 0, plasticityRate = 1/10\<rparr>)],
                    decay = 9/10, threshold = 1/2, refractoryPeriod = 100, lastFired = 0,
                    embedding = Some [0, 1], semanticContent = Some ''fire''\<rparr>"
  let ?mc = "\<lparr>weight = 1/4, c_lastFired = 0, plasticityRate = 1/10\<rparr>"
  have net: "network faint = [(''a'', ?ma), (''b'', ?mb)]"
    and env: "clock faint (ticks faint) = 1000" "chaosThreshold faint = 12/10"
    by (simp_all add: faint_def new_instance_def)
  have a': "map_of (network faint) ''a'' = Some ?ma" by (simp add: net)
  have b': "map_of (network faint) ''b'' = Some ?mb" by (simp add: net)
  have d': "distinct (map fst (connections ?ma))" by simp
  have c': "map_of (connections ?ma) ''b'' = Some ?mc" by simp
  have ready': "\<not> clock faint (ticks faint) - lastFired ?ma < refractoryPeriod ?ma"
    by (simp add: env)
  have x': "(9/100 :: real) = potential ?ma * 0.9 * weight ?mc * 0.8" by simp
  have small': "Math_tanh (9/100) = tanh (9/100)" by (simp add: Math_tanh_def)
  have r': "9/100 + tanh (9/100 :: real)
      = 9/100 + (if chaosThreshold faint > 1.0 \<and> chaosThreshold faint < 1.5 then Math_tanh (9/100) else 0)"
    by (simp only: small') (simp add: env)
  have "tanh (9/100 :: real) \<le> 9/100" by (rule tanh_le_self) simp
  then have q: "\<not> (0.3 :: real) < 0 + (9/100 + tanh (9/100))" by simp
  then have quiet: "\<not> 0.3 < potential ?mb + (9/100 + tanh (9/100))" by simp
  have only: "sole_source faint ''a'' ''b''"
    by (simp add: sole_source_def net)
  from propagateActivation_broad_neighbour[OF ab a' b' d' c' ready' x' r'] quiet only
  have 3: "map_option potential (map_of (network (snd (propagateActivation [''a''] broad faint))) ''b'')
      = Some (0 + (9/100 + tanh (9/100)))"
    "''b'' \<notin> set (fst (propagateActivation [''a''] broad faint))"
    by simp_all
  have 4: "map_option potential (map_of (network faint) ''a'') = Some (1/2)"
    "map_option potential (map_of (network faint) ''b'') = Some 0"
    "map_option weight (get_conn faint ''a'' ''b'') = Some (1/4)"
    "map (\<lambda>(k, n). (k, map fst (connections n))) (network faint) = [(''a'', [''b'']), (''b'', [''a''])]"
    by (simp_all add: net get_conn_def)
  let ?ra = "\<lparr>potential = 1/2,
                    connections = [(''b'', \<lparr>weight = 1/4, c_lastFired = 0, plasticityRate = 1/10\<rparr>),
                                   (''c'', \<lparr>weight = 1/2, c_lastFired = 0, plasticityRate = 1/10\<rparr>)],
                    decay = 9/10, threshold = 1/2, refractoryPeriod = 100, lastFired = 0,
                    embedding = Some [1, 0], semanticContent = Some ''water''\<rparr>"
  let ?rb = "\<lparr>potential = 0, connections = [],
                    decay = 9/10, threshold = 1/2, refractoryPeriod = 100, lastFired = 0,
                    embedding = Some [0, 1], semanticContent = Some ''fire''\<rparr>"
  let ?rc = "\<lparr>potential = 1,
                    connections = [(''b'', \<lparr>weight = 1/2, c_lastFired = 0, plasticityRate = 1/10\<rparr>)],
                    decay = 9/10, threshold = 1/2, refractoryPeriod = 100, lastFired = 0,
                    embedding = Some [0, 1], semanticContent = Some ''ice''\<rparr>"
  have rnet: "network relay = [(''a'', ?ra), (''b'', ?rb), (''c'', ?rc)]"
    and renv: "clock relay = (\<lambda>k. 1000)" "chaosThreshold relay = 12/10"
    by (simp_all add: relay_def new_instance_def)
  have a'': "map_of (network relay) ''a'' = Some ?ra" by (simp add: rnet)
  have b'': "map_of (network relay) ''b'' = Some ?rb" by (simp add: rnet)
  have d'': "distinct (map fst (connections ?ra))" by simp
  have c'': "map_of (connections ?ra) ''b'' = Some ?mc" by simp
  have ready'': "\<not> clock relay (ticks relay) - lastFired ?ra < refractoryPeriod ?ra"
    by (simp add: renv)
  have x'': "(9/100 :: real) = potential ?ra * 0.9 * weight ?mc * 0.8" by simp
  have r'': "9/100 + tanh (9/100 :: real)
      = 9/100 + (if chaosThreshold relay > 1.0 \<and> chaosThreshold relay < 1.5 then Math_tanh (9/100) else 0)"
    by (simp only: small') (simp add: renv)
  from q have quiet'': "\<not> 0.3 < potential ?rb + (9/100 + tanh (9/100))" by simp
  have rest: "resting relay" by (simp add: resting_def rnet renv)
  have ns: "\<not> sole_source relay ''a'' ''b''" by (simp add: sole_source_def rnet)
  from propagateActivation_broad_neighbour[OF ab a'' b'' d'' c'' ready'' x'' r''] quiet'' rest
  have 5: "map_option potential (map_of (network (snd (propagateActivation [''a''] broad relay))) ''b'')
      = Some (0 + (9/100 + tanh (9/100)))"
    "''b'' \<notin> set (fst (propagateActivation [''a''] broad relay))"
    by simp_all
  have 6: "map_option potential (map_of (network relay) ''a'') = Some (1/2)"
    "map_option potential (map_of (network relay) ''b'') = Some 0"
    "map_option weight (get_conn relay ''a'' ''b'') = Some (1/4)"
    "map_option weight (get_conn relay ''c'' ''b'') = Some (1/2)"
    by (simp_all add: rnet get_conn_def)
  from 1 2 f 3 4 q only 5 6 ns rest relay_path show ?thesis by blast
qed


section \<open>Saving and loading\<close>

lemma fold_update_distinct:
  "distinct (map fst xs) \<Longrightarrow> fst ` set xs \<inter> fst ` set acc = {} \<Longrightarrow>
   fold (\<lambda>(k, v) m. AList.update k (f v) m) xs acc = acc @ map (\<lambda>(k, v). (k, f v)) xs"
proof (induction xs arbitrary: acc)
  case Nil
  show ?case by simp
next
  case (Cons x xs)
  obtain k v where x: "x = (k, v)" by (cases x)
  from Cons.prems have fresh: "k \<notin> fst ` set acc" by (auto simp: x)
  then have u: "AList.update k (f v) acc = acc @ [(k, f v)]" by (rule update_fresh)
  from Cons.prems have "distinct (map fst xs)" "fst ` set xs \<inter> fst ` set (acc @ [(k, f v)]) = {}"
    by (auto simp: x)
  from Cons.IH[OF this] show ?case by (simp add: x u)
qed

lemma new_Map_distinct: "distinct (map fst cs) \<Longrightarrow> new_Map cs = cs"
  using fold_update_distinct[of cs "[]" "\<lambda>v. v"] by (simp add: new_Map_def case_prod_unfold)

lemma or_absent_idem [simp]: "or_absent (or_absent x) = or_absent x"
  by (cases x) (auto simp: or_absent_def split: list.splits)

lemma node_of_data_node_data:
  "distinct (map fst (connections n)) \<Longrightarrow> node_of_data (node_data n) = reloaded n"
  by (cases "embedding n") (simp_all add: node_of_data_def node_data_def reloaded_def new_Map_distinct)

lemma Object_entries_set [simp]: "set (Object_entries obj) = set obj"
  by (auto simp: Object_entries_def)

lemma Object_entries_distinct:
  assumes "distinct (map fst obj)"
  shows "distinct (map fst (Object_entries obj))"
proof -
  from assms have d: "distinct obj" and inj: "inj_on fst (set obj)"
    by (simp_all add: distinct_map)
  have "distinct (Object_entries obj)"
    using d by (auto simp: Object_entries_def)
  with inj show ?thesis by (simp add: distinct_map)
qed

lemma map_of_Object_entries:
  "distinct (map fst obj) \<Longrightarrow> map_of (Object_entries obj) = map_of obj"
  by (simp add: map_of_inject_set Object_entries_distinct)

lemma saved_document:
  assumes "distinct (map fst (network s))" and "''__proto__'' \<notin> fst ` set (network s)"
  shows "fold (\<lambda>(id, node) obj. obj_set id (Some (node_data node)) obj) (network s) []
    = map (\<lambda>(id, node). (id, Some (node_data node))) (network s)"
proof -
  have "fold (\<lambda>(id, node) obj. obj_set id (Some (node_data node)) obj) xs acc
      = fold (\<lambda>(id, node) obj. AList.update id (Some (node_data node)) obj) xs acc"
    if "''__proto__'' \<notin> fst ` set xs" for xs and acc :: "(string \<times> NodeData option) list"
    using that by (induction xs arbitrary: acc) (auto simp: obj_set_def)
  from this[OF assms(2)] fold_update_distinct[OF assms(1), of "[]" "\<lambda>n. Some (node_data n)"]
  show ?thesis by simp
qed

text \<open>On entries that all hold a node, the loop does not throw and sets them all.\<close>

lemma load_entries_lookup:
  assumes "distinct (map fst xs)" and "\<forall>(k, v)\<in>set xs. v \<noteq> None"
  shows "fst (load_entries xs t) = None \<and>
    map_of (network (snd (load_entries xs t))) k =
      (case map_of xs k of Some (Some d) \<Rightarrow> Some (node_of_data d) | _ \<Rightarrow> map_of (network t) k)"
  using assms
proof (induction xs arbitrary: t)
  case Nil
  show ?case by simp
next
  case (Cons x xs)
  obtain k' v where x: "x = (k', v)" by (cases x)
  from Cons.prems(2) obtain d where v: "v = Some d" by (auto simp: x)
  from Cons.prems have rest: "distinct (map fst xs)" "\<forall>(k, v)\<in>set xs. v \<noteq> None"
    and fresh: "k' \<notin> fst ` set xs"
    by (auto simp: x)
  from fresh have none: "map_of xs k' = None" by (simp add: map_of_eq_None_iff)
  note IH = Cons.IH[OF rest, of "t\<lparr>network := AList.update k' (node_of_data d) (network t)\<rparr>"]
  show ?case
  proof (cases "k = k'")
    case True
    with IH none show ?thesis by (simp add: x v update_conv')
  next
    case False
    with IH show ?thesis by (simp add: x v update_conv' split: option.splits)
  qed
qed

lemma load_save:
  assumes wf: "well_formed s" and proto: "''__proto__'' \<notin> fst ` set (network s)"
    and empty: "network t = []"
  shows "map_of (network (loadNetwork (t\<lparr>disk := disk (saveNetwork s)\<rparr>))) k
    = map_option reloaded (map_of (network s) k)"
proof -
  let ?obj = "map (\<lambda>(id, node). (id, Some (node_data node))) (network s)"
  let ?t = "t\<lparr>disk := disk (saveNetwork s)\<rparr>"
  from wf have d: "distinct (map fst (network s))" by (simp add: well_formed_def)
  have keys: "map fst ?obj = map fst (network s)" by (simp add: case_prod_unfold comp_def)
  have dobj: "distinct (map fst ?obj)" unfolding keys by (rule d)
  have disk: "disk (saveNetwork s) = Document (Object_entries ?obj)"
    by (simp add: saveNetwork_def Let_def saved_document[OF d proto])
  have de: "distinct (map fst (Object_entries ?obj))"
    by (rule Object_entries_distinct[OF dobj])
  have dee: "distinct (map fst (Object_entries (Object_entries ?obj)))"
    by (rule Object_entries_distinct[OF de])
  have nodes: "\<forall>(k, v)\<in>set (Object_entries (Object_entries ?obj)). v \<noteq> None"
    by auto
  have load: "loadNetwork ?t = snd (load_entries (Object_entries (Object_entries ?obj)) ?t)"
    by (simp add: loadNetwork_reached try_load_def disk)
  have obj: "map_of ?obj k = map_option (\<lambda>n. Some (node_data n)) (map_of (network s) k)"
    by (simp add: map_of_map)
  have "map_of (network (loadNetwork ?t)) k
      = (case map_of (Object_entries (Object_entries ?obj)) k of
           Some (Some d) \<Rightarrow> Some (node_of_data d) | _ \<Rightarrow> map_of (network ?t) k)"
    unfolding load using load_entries_lookup[OF dee nodes, of ?t k] by simp
  also have "\<dots> = (case map_of ?obj k of
           Some (Some d) \<Rightarrow> Some (node_of_data d) | _ \<Rightarrow> None)"
    by (simp add: map_of_Object_entries[OF dobj] map_of_Object_entries[OF de] empty
          split: option.splits)
  also have "\<dots> = map_option (\<lambda>n. node_of_data (node_data n)) (map_of (network s) k)"
    unfolding obj by (cases "map_of (network s) k") simp_all
  also have "\<dots> = map_option reloaded (map_of (network s) k)"
  proof (cases "map_of (network s) k")
    case None
    then show ?thesis by simp
  next
    case (Some n)
    then have "(k, n) \<in> set (network s)" by (rule map_of_SomeD)
    with wf have "distinct (map fst (connections n))" by (auto simp: well_formed_def)
    with Some show ?thesis by (simp add: node_of_data_node_data)
  qed
  finally show ?thesis .
qed

lemma reloaded_same: "semanticContent n \<noteq> Some [] \<Longrightarrow> reloaded n = n"
  by (cases "semanticContent n") (auto simp: reloaded_def or_absent_def split: list.splits)

text \<open>
  C1. Let the maps of a state be maps and let no node have the id \<^verbatim>\<open>__proto__\<close>. Loading
  the document that \<^verbatim>\<open>saveNetwork\<close> writes into an instance with an empty network gives a
  network with the same ids, in which every node has the potential, decay, threshold,
  refractory period, time of last firing, connections and embedding that it had, and its
  semantic content, except that an empty text has become absent. When no node has the empty
  text as semantic content, looking up an id gives the same node before and after.
\<close>

theorem saveNetwork_loadNetwork:
  assumes "well_formed s" and "''__proto__'' \<notin> fst ` set (network s)" and "network t = []"
  shows "map_of (network (loadNetwork (t\<lparr>disk := disk (saveNetwork s)\<rparr>))) k
           = map_option reloaded (map_of (network s) k) \<and>
         ((\<forall>(k, n)\<in>set (network s). semanticContent n \<noteq> Some []) \<longrightarrow>
            map_of (network (loadNetwork (t\<lparr>disk := disk (saveNetwork s)\<rparr>)))
              = map_of (network s))"
proof (intro conjI impI)
  show "map_of (network (loadNetwork (t\<lparr>disk := disk (saveNetwork s)\<rparr>))) k
      = map_option reloaded (map_of (network s) k)"
    by (rule load_save[OF assms])
next
  assume ne: "\<forall>(k, n)\<in>set (network s). semanticContent n \<noteq> Some []"
  show "map_of (network (loadNetwork (t\<lparr>disk := disk (saveNetwork s)\<rparr>))) = map_of (network s)"
  proof
    fix k
    have "map_option reloaded (map_of (network s) k) = map_of (network s) k"
    proof (cases "map_of (network s) k")
      case None
      then show ?thesis by simp
    next
      case (Some n)
      then have "(k, n) \<in> set (network s)" by (rule map_of_SomeD)
      with ne have "semanticContent n \<noteq> Some []" by auto
      with Some show ?thesis by (simp add: reloaded_same)
    qed
    then show "map_of (network (loadNetwork (t\<lparr>disk := disk (saveNetwork s)\<rparr>))) k
        = map_of (network s) k"
      by (simp add: load_save[OF assms])
  qed
qed

theorem saveNetwork_loadNetwork_witness:
  "well_formed two_nodes \<and> ''__proto__'' \<notin> fst ` set (network two_nodes) \<and>
   network (new_instance (\<lambda>k. 0) Missing) = [] \<and>
   map semanticContent (map snd (network two_nodes)) = [Some ''water'', Some ''fire''] \<and>
   map_of (network (loadNetwork
     ((new_instance (\<lambda>k. 0) Missing)\<lparr>disk := disk (saveNetwork two_nodes)\<rparr>)))
     = map_of (network two_nodes)"
proof -
  have wf: "well_formed two_nodes"
    by (simp add: well_formed_def two_nodes_def new_instance_def)
  have proto: "''__proto__'' \<notin> fst ` set (network two_nodes)"
    by (simp add: two_nodes_def new_instance_def)
  have empty: "network (new_instance (\<lambda>k. 0) Missing) = []"
    by (simp add: new_instance_def)
  have sc: "map semanticContent (map snd (network two_nodes)) = [Some ''water'', Some ''fire'']"
    by (simp add: two_nodes_def new_instance_def)
  have ne: "\<forall>(k, n)\<in>set (network two_nodes). semanticContent n \<noteq> Some []"
    by (simp add: two_nodes_def new_instance_def)
  from saveNetwork_loadNetwork[OF wf proto empty] ne
  have "map_of (network (loadNetwork
     ((new_instance (\<lambda>k. 0) Missing)\<lparr>disk := disk (saveNetwork two_nodes)\<rparr>)))
     = map_of (network two_nodes)" by blast
  with wf proto empty sc show ?thesis by blast
qed

text \<open>Saved and loaded, the node of \<^const>\<open>blank\<close> has no semantic content.\<close>

lemma blank_network:
  "network blank =
     [(''n'', \<lparr>potential = 1, connections = [], decay = 9/10, threshold = 1/2,
         refractoryPeriod = 100, lastFired = 0, embedding = Some [1],
         semanticContent = Some ''''\<rparr>)]"
  by (simp add: blank_def learn_def initialize_loads new_instance_def findResonantNodes_def
        createNode_def strengthenPath_def weaken_unused_def modify_node_def Let_def)

theorem saveNetwork_loadNetwork_counterexample:
  "map_option semanticContent (map_of (network blank) ''n'') = Some (Some '''') \<and>
   map_option semanticContent
     (map_of (network (loadNetwork
        ((new_instance (\<lambda>k. 0) Missing)\<lparr>disk := disk (saveNetwork blank)\<rparr>))) ''n'')
     = Some None"
proof -
  have idx: "array_index ''n'' = None"
    by (simp add: array_index_def is_digit_def)
  show ?thesis
    by (simp add: blank_network saveNetwork_def obj_set_def Object_entries_def idx
          loadNetwork_reached try_load_def new_instance_def node_data_def node_of_data_def
          or_absent_def new_Map_def Let_def)
qed

text \<open>A node under the id \<^verbatim>\<open>__proto__\<close> is not written.\<close>

lemma saveNetwork_proto:
  "network s = [(''__proto__'', n)] \<Longrightarrow> disk (saveNetwork s) = Document []"
  by (simp add: saveNetwork_def obj_set_def Object_entries_def)

section \<open>Starting without a usable file\<close>

lemma load_entries_throws:
  "load_entries (map (\<lambda>(k, d). (k, Some d)) loaded @ (k, None) # rest) s =
     (Some TypeError,
      s\<lparr>network := fold (\<lambda>(id, nodeData) net. AList.update id (node_of_data nodeData) net)
                      loaded (network s)\<rparr>)"
proof (induction loaded arbitrary: s)
  case Nil
  show ?case by simp
next
  case (Cons x loaded)
  obtain k' d where x: "x = (k', d)" by (cases x)
  show ?case by (simp add: x Cons)
qed

text \<open>
  C8. No error leaves \<^verbatim>\<open>loadNetwork\<close>, and \<^verbatim>\<open>initialize\<close> returns without an error, whatever
  the persistence file holds. When the file is missing, or is there with a content that does not parse, the network is left as
  it was, which is empty for a new instance: on a content that does not parse the body of
  \<^verbatim>\<open>loadNetwork\<close> throws, and \<^verbatim>\<open>loadNetwork\<close> returns with the state unchanged. On a content
  that parses and is malformed the body throws as well, and \<^verbatim>\<open>loadNetwork\<close> returns: for
  the content \<^verbatim>\<open>null\<close> with the state unchanged, and for an object with an entry on which
  the construction of the node throws, with the nodes of the entries before it in the
  network.
\<close>

theorem initialize_recovers:
  "fst (loadNetwork_call s) = None \<and>
   (\<exists>s'. initialize s = Inr s') \<and>
   (disk s = Missing \<or> disk s = Unparsable \<longrightarrow>
      initialize s = Inr (s\<lparr>isInitialized := True\<rparr>) \<and>
      (\<exists>e. fst (try_load s) = Some e) \<and> loadNetwork s = s) \<and>
   (file = Missing \<or> file = Unparsable \<longrightarrow>
      (\<exists>s'. initialize (new_instance clk file) = Inr s' \<and> network s' = [])) \<and>
   (disk s = Null_document \<longrightarrow>
      fst (try_load s) = Some TypeError \<and> initialize s = Inr (s\<lparr>isInitialized := True\<rparr>)) \<and>
   (disk s = Document data \<and>
    Object_entries data = map (\<lambda>(k, d). (k, Some d)) loaded @ (k, None) # rest \<longrightarrow>
      fst (try_load s) = Some TypeError \<and>
      initialize s =
        Inr (s\<lparr>network := fold (\<lambda>(id, nodeData) net. AList.update id (node_of_data nodeData) net)
                             loaded (network s),
               isInitialized := True\<rparr>))"
proof (intro conjI impI)
  show "fst (loadNetwork_call s) = None"
    by (simp add: loadNetwork_call_returns)
  show "\<exists>s'. initialize s = Inr s'"
    by (simp add: initialize_loads)
next
  assume h: "disk s = Missing \<or> disk s = Unparsable"
  then show "loadNetwork s = s"
    by (auto simp: loadNetwork_reached try_load_def)
  with h show "initialize s = Inr (s\<lparr>isInitialized := True\<rparr>)"
    by (auto simp: initialize_loads)
  from h show "\<exists>e. fst (try_load s) = Some e"
    by (auto simp: try_load_def)
next
  assume "file = Missing \<or> file = Unparsable"
  then show "\<exists>s'. initialize (new_instance clk file) = Inr s' \<and> network s' = []"
    by (auto simp: initialize_loads loadNetwork_reached try_load_def new_instance_def)
next
  assume h: "disk s = Null_document"
  then show "fst (try_load s) = Some TypeError"
    by (simp add: try_load_def)
  from h show "initialize s = Inr (s\<lparr>isInitialized := True\<rparr>)"
    by (simp add: initialize_loads loadNetwork_reached try_load_def)
next
  assume h: "disk s = Document data \<and>
    Object_entries data = map (\<lambda>(k, d). (k, Some d)) loaded @ (k, None) # rest"
  then have t: "try_load s =
     (Some TypeError,
      s\<lparr>network := fold (\<lambda>(id, nodeData) net. AList.update id (node_of_data nodeData) net)
                      loaded (network s)\<rparr>)"
    by (simp add: try_load_def load_entries_throws)
  then show "fst (try_load s) = Some TypeError" by simp
  from h t show "initialize s =
        Inr (s\<lparr>network := fold (\<lambda>(id, nodeData) net. AList.update id (node_of_data nodeData) net)
                             loaded (network s),
               isInitialized := True\<rparr>)"
    by (simp add: initialize_loads loadNetwork_reached)
qed

theorem initialize_recovers_witness:
  "fst (try_load (new_instance (\<lambda>k. 0) Unparsable)) = Some SyntaxError \<and>
   loadNetwork (new_instance (\<lambda>k. 0) Unparsable) = new_instance (\<lambda>k. 0) Unparsable \<and>
   initialize (new_instance (\<lambda>k. 0) Unparsable)
     = Inr ((new_instance (\<lambda>k. 0) Unparsable)\<lparr>isInitialized := True\<rparr>) \<and>
   network ((new_instance (\<lambda>k. 0) Unparsable)\<lparr>isInitialized := True\<rparr>) = [] \<and>
   initialize (new_instance (\<lambda>k. 0) Missing)
     = Inr ((new_instance (\<lambda>k. 0) Missing)\<lparr>isInitialized := True\<rparr>) \<and>
   fst (try_load (new_instance (\<lambda>k. 0) Null_document)) = Some TypeError \<and>
   initialize (new_instance (\<lambda>k. 0) Null_document)
     = Inr ((new_instance (\<lambda>k. 0) Null_document)\<lparr>isInitialized := True\<rparr>) \<and>
   map fst damaged_document = [''a'', ''n'', ''b''] \<and>
   map_of damaged_document ''n'' = Some None \<and>
   fst (try_load (new_instance (\<lambda>k. 1000) (Document damaged_document))) = Some TypeError \<and>
   initialize (new_instance (\<lambda>k. 1000) (Document damaged_document)) = Inr partly_loaded \<and>
   map fst (network partly_loaded) = [''a'']"
proof -
  have d: "disk (new_instance (\<lambda>k. 0) Unparsable) = Unparsable"
    "disk (new_instance (\<lambda>k. 0) Missing) = Missing"
    "disk (new_instance (\<lambda>k. 0) Null_document) = Null_document"
    by (simp_all add: new_instance_def)
  have r: "fst (try_load (new_instance (\<lambda>k. 0) Unparsable)) = Some SyntaxError"
    by (simp add: try_load_def new_instance_def)
  have n: "network ((new_instance (\<lambda>k. 0) Unparsable)\<lparr>isInitialized := True\<rparr>) = []"
    by (simp add: new_instance_def)
  have idx: "array_index ''a'' = None" "array_index ''b'' = None" "array_index ''n'' = None"
    by (simp_all add: array_index_def is_digit_def)
  let ?da = "\<lparr>d_potential = 1/2, d_decay = 9/10, d_threshold = 1/2, d_refractoryPeriod = 100,
               d_lastFired = 0,
               d_connections = [(''b'', \<lparr>weight = 1/2, c_lastFired = 0, plasticityRate = 1/10\<rparr>)],
               d_embedding = Some [1, 0], d_semanticContent = Some ''water''\<rparr>"
  have doc: "map fst damaged_document = [''a'', ''n'', ''b'']"
    "map_of damaged_document ''n'' = Some None"
    by (simp_all add: damaged_document_def two_nodes_document_def)
  have dd: "disk (new_instance (\<lambda>k. 1000) (Document damaged_document)) = Document damaged_document"
    by (simp add: new_instance_def)
  have entries: "Object_entries damaged_document
      = map (\<lambda>(k, d). (k, Some d)) [(''a'', ?da)] @ (''n'', None) # [last two_nodes_document]"
    by (simp add: damaged_document_def two_nodes_document_def Object_entries_def idx)
  have reached: "(new_instance (\<lambda>k. 1000) (Document damaged_document))
      \<lparr>network := fold (\<lambda>(id, nodeData) net. AList.update id (node_of_data nodeData) net)
                     [(''a'', ?da)]
                     (network (new_instance (\<lambda>k. 1000) (Document damaged_document))),
        isInitialized := True\<rparr> = partly_loaded"
    by (simp add: partly_loaded_def new_instance_def two_nodes_def node_of_data_def new_Map_def
          or_absent_def)
  have p: "map fst (network partly_loaded) = [''a'']"
    by (simp add: partly_loaded_def new_instance_def two_nodes_def)
  from initialize_recovers [of "new_instance (\<lambda>k. 0) Unparsable" Missing "\<lambda>k. 0"]
    initialize_recovers [of "new_instance (\<lambda>k. 0) Missing" Missing "\<lambda>k. 0"]
    initialize_recovers [of "new_instance (\<lambda>k. 0) Null_document" Missing "\<lambda>k. 0"]
    initialize_recovers [of "new_instance (\<lambda>k. 1000) (Document damaged_document)" Missing
      "\<lambda>k. 0" damaged_document "[(''a'', ?da)]" "''n''" "[last two_nodes_document]"]
    d r n doc dd entries reached p
  show ?thesis by simp
qed

section \<open>When learning saves\<close>

lemma writes_modify_node [simp]: "writes (modify_node k f s) = writes s"
  by (simp add: modify_node_def)

lemma writes_set_conn [simp]: "writes (set_conn a b c s) = writes s"
  by (simp add: set_conn_def)

lemma writes_ensure_conn [simp]: "writes (snd (ensure_conn a b s)) = writes s"
  by (simp add: ensure_conn_def Date_now_def Let_def split: option.splits)

lemma writes_strengthen_pair [simp]: "writes (strengthen_pair a b s) = writes s"
  by (simp add: strengthen_pair_def Date_now_def Let_def case_prod_unfold split: option.splits)

lemma writes_strengthen_pairs [simp]: "writes (strengthen_pairs path s) = writes s"
  by (induction path s rule: strengthen_pairs.induct) simp_all

lemma writes_decay_pass [simp]: "writes (fold (weaken_unused path) ks s) = writes s"
  by (induction ks arbitrary: s) (simp_all add: weaken_unused_def)

lemma writes_strengthenPath [simp]: "writes (strengthenPath path s) = writes s"
  by (simp add: strengthenPath_def)

lemma writes_findResonantNodes [simp]:
  "writes (snd (findResonantNodes new_id q content s)) = writes s"
  by (simp add: findResonantNodes_def createNode_def Let_def case_prod_unfold)

lemma writes_load_entries [simp]: "writes (snd (load_entries xs s)) = writes s"
  by (induction xs s rule: load_entries.induct) simp_all

lemma writes_loadNetwork [simp]: "writes (loadNetwork s) = writes s"
proof -
  have "loadNetwork s = snd (try_load s)"
    by (rule loadNetwork_reached)
  then show ?thesis by (simp add: try_load_def split: persisted.splits)
qed

lemma initialize_Inr: "\<exists>s0. initialize s = Inr s0 \<and> writes s0 = writes s"
  by (simp add: initialize_loads Let_def)

lemma saveNetwork_network [simp]: "network (saveNetwork s) = network s"
  by (simp add: saveNetwork_def Let_def)

lemma saveNetwork_writes [simp]: "writes (saveNetwork s) = Suc (writes s)"
  by (simp add: saveNetwork_def Let_def)

text \<open>
  C9. A call of \<^verbatim>\<open>learn\<close> whose embedding succeeds calls \<^verbatim>\<open>saveNetwork\<close>, once, exactly when
  the network holds a multiple of ten nodes at the end of the call; a call whose embedding
  fails does not save.
\<close>

theorem learn_saves:
  "fst (learn new_id experience (Inr v) s) = None \<and>
   writes (snd (learn new_id experience (Inr v) s)) =
     (if length (network (snd (learn new_id experience (Inr v) s))) mod 10 = 0
      then Suc (writes s) else writes s) \<and>
   writes (snd (learn new_id experience (Inl e) s)) = writes s"
proof -
  obtain s0 where s0: "(if \<not> isInitialized s then initialize s else Inr s) = Inr s0"
    "writes s0 = writes s"
    using initialize_Inr[of s] by (cases "isInitialized s") auto
  show ?thesis
    by (simp add: learn_def s0 Let_def case_prod_unfold)
qed

lemma keys_set_conn [simp]: "map fst (network (set_conn a b c s)) = map fst (network s)"
  by (simp add: set_conn_def)

lemma keys_ensure_conn [simp]: "map fst (network (snd (ensure_conn a b s))) = map fst (network s)"
  by (simp add: ensure_conn_def Date_now_def Let_def split: option.splits)

lemma keys_strengthen_pair [simp]: "map fst (network (strengthen_pair a b s)) = map fst (network s)"
  by (simp add: strengthen_pair_def Date_now_def Let_def case_prod_unfold split: option.splits)

lemma keys_strengthen_pairs [simp]: "map fst (network (strengthen_pairs path s)) = map fst (network s)"
  by (induction path s rule: strengthen_pairs.induct) simp_all

lemma keys_decay_pass [simp]:
  "map fst (network (fold (weaken_unused path) ks s)) = map fst (network s)"
  by (induction ks arbitrary: s) (simp_all add: weaken_unused_def)

lemma keys_strengthenPath [simp]: "map fst (network (strengthenPath path s)) = map fst (network s)"
  by (simp add: strengthenPath_def)

lemma length_strengthenPath [simp]:
  "length (network (strengthenPath path s)) = length (network s)"
proof -
  have "length (map fst (network (strengthenPath path s))) = length (map fst (network s))"
    by (simp only: keys_strengthenPath)
  then show ?thesis by (simp only: length_map)
qed

theorem learn_saves_witness:
  "length (network nine_nodes) = 9 \<and>
   fst (learn ''n10'' ''ice'' (Inr [1, 0]) nine_nodes) = None \<and>
   length (network (snd (learn ''n10'' ''ice'' (Inr [1, 0]) nine_nodes))) = 10 \<and>
   writes (snd (learn ''n10'' ''ice'' (Inr [1, 0]) nine_nodes)) = Suc (writes nine_nodes) \<and>
   writes (snd (learn ''n10'' ''ice'' (Inl ServiceFailure) nine_nodes)) = writes nine_nodes"
proof -
  have n9: "length (network nine_nodes) = 9"
    by (simp add: nine_nodes_def new_instance_def)
  have "resonate [1, 0] (network nine_nodes) = ([], network nine_nodes)"
    by (simp add: nine_nodes_def new_instance_def created_def cosineSimilarity_def)
  then have "map fst (network (snd (findResonantNodes ''n10'' [1, 0] (Some ''ice'') nine_nodes)))
      = map fst (network nine_nodes) @ [''n10'']"
    by (simp add: findResonantNodes_def createNode_def update_keys)
       (simp add: nine_nodes_def new_instance_def)
  then have "length (map fst (network (snd (findResonantNodes ''n10'' [1, 0] (Some ''ice'') nine_nodes))))
      = 10"
    using n9 by simp
  then have f10: "length (network (snd (findResonantNodes ''n10'' [1, 0] (Some ''ice'') nine_nodes))) = 10"
    by simp
  have init: "isInitialized nine_nodes" by (simp add: nine_nodes_def)
  have n10: "length (network (snd (learn ''n10'' ''ice'' (Inr [1, 0]) nine_nodes))) = 10"
    by (simp add: learn_def Let_def case_prod_unfold init f10)
  from learn_saves [of "''n10''" "''ice''" "[1, 0]" nine_nodes ServiceFailure] n9 n10
  show ?thesis by simp
qed

text \<open>
  Ten calls of \<^verbatim>\<open>learn\<close> on a new instance without a file, with the same text and vector.
  The first call creates a node and the others resonate with it: the network holds one node
  throughout, and no call saves, the tenth no more than the others.
\<close>

lemma learn_first:
  "learn ''n1'' ''water'' (Inr [1]) (new_instance (\<lambda>k. 0) Missing) = (None, after_first)"
  by (simp add: learn_def initialize_loads new_instance_def findResonantNodes_def createNode_def
        strengthenPath_def weaken_unused_def modify_node_def Let_def after_first_def created_def)

lemma learn_again: "learn new_id ''water'' (Inr [1]) after_first = (None, after_first)"
  by (simp add: learn_def after_first_def new_instance_def findResonantNodes_def created_def
        cosineSimilarity_def strengthenPath_def weaken_unused_def modify_node_def Let_def)

theorem learn_cadence_counterexample:
  "fst (learn ''n10'' ''water'' (Inr [1]) (learn_all nine_lessons (new_instance (\<lambda>k. 0) Missing)))
     = None \<and>
   writes (learn_all nine_lessons (new_instance (\<lambda>k. 0) Missing)) = 0 \<and>
   writes (snd (learn ''n10'' ''water'' (Inr [1])
     (learn_all nine_lessons (new_instance (\<lambda>k. 0) Missing)))) = 0 \<and>
   length (network (snd (learn ''n10'' ''water'' (Inr [1])
     (learn_all nine_lessons (new_instance (\<lambda>k. 0) Missing))))) = 1"
proof -
  have nine: "learn_all nine_lessons (new_instance (\<lambda>k. 0) Missing) = after_first"
    by (simp add: nine_lessons_def learn_first learn_again)
  have w: "writes after_first = 0" "length (network after_first) = 1"
    by (simp_all add: after_first_def new_instance_def)
  show ?thesis by (simp add: nine learn_again w)
qed

end
